theory Spec2Isabelle
  imports Main "HOL-Library.Char_ord" "HOL-Library.List_Lexorder" "HOL-Library.Multiset"
    "HOL-Library.Word"
begin

section \<open>MTFS: a Merkle tree over a directory tree\<close>

text \<open>
  The development embeds the member functions of \<^verbatim>\<open>MerkleNode\<close> and of \<^verbatim>\<open>MerkleTree\<close>
  (\<^verbatim>\<open>merkleTree.cpp\<close>) with the declarations of \<^verbatim>\<open>merkle.hpp\<close>.

  \<^item> \<^verbatim>\<open>std::string\<close> is \<open>string\<close>; its \<^verbatim>\<open>operator<\<close> is the lexicographic order on
    bytes, which is the order of \<open>char list\<close> here.
  \<^item> \<^verbatim>\<open>std::map<string, T>\<close> is an association list kept strictly ascending in its keys;
    iterating the map is reading the list from left to right.
  \<^item> The SHA-256 of OpenSSL, rendered in hexadecimal by \<^verbatim>\<open>sha256\<close>, is a parameter
    \<open>sha256 :: string \<Rightarrow> string\<close> of every function that hashes.
  \<^item> \<^verbatim>\<open>size_t\<close> is \<open>64 word\<close> where the program computes with it: the \<open>fileSize\<close> of a
    node, which is converted from the position that the stream reports, and the three
    counters of the statistics, whose additions wrap modulo \<open>2 ^ 64\<close>. The chunk size is
    only compared and used as a number of bytes to read; it is a \<open>nat\<close>.
  \<^item> An exception is a value \<open>Inl e\<close> of a sum type.
\<close>

subsection \<open>Errors\<close>

datatype error =
    InvalidChunkSize
  | DirectoryDoesNotExist
  | PathIsNotADirectory
  | PathDoesNotExist
  | CannotOpenFile
  | ErrorProcessingFile
  | ErrorReadingDirectory
  | CannotAddChildToFileNode
  | CannotAddNullChild

subsection \<open>The node\<close>

text \<open>
  A directory owns its children: every node is made by \<^verbatim>\<open>make_shared\<close> in
  \<^verbatim>\<open>build_node\<close> and added to one parent, so the graph below a node is a tree and the
  children map holds the child nodes themselves. A member function that writes a field
  returns the node with the field written.
\<close>

datatype node = Node
  (name: string)
  (hash: string)
  (contentHash: string)
  (chunkHashes: "string list")
  (children: "(string \<times> node) list")
  (isFile: bool)
  (fileSize: "64 word")
  (cachedDepth: int)


fun set_contentHash :: "string \<Rightarrow> node \<Rightarrow> node" where
  "set_contentHash v (Node nm h ch chs cs isf sz cd) = Node nm h v chs cs isf sz cd"

fun set_chunkHashes :: "string list \<Rightarrow> node \<Rightarrow> node" where
  "set_chunkHashes v (Node nm h ch chs cs isf sz cd) = Node nm h ch v cs isf sz cd"

fun set_children :: "(string \<times> node) list \<Rightarrow> node \<Rightarrow> node" where
  "set_children v (Node nm h ch chs cs isf sz cd) = Node nm h ch chs v isf sz cd"

fun set_fileSize :: "64 word \<Rightarrow> node \<Rightarrow> node" where
  "set_fileSize v (Node nm h ch chs cs isf sz cd) = Node nm h ch chs cs isf v cd"

fun set_cachedDepth :: "int \<Rightarrow> node \<Rightarrow> node" where
  "set_cachedDepth v (Node nm h ch chs cs isf sz cd) = Node nm h ch chs cs isf sz v"

text \<open>
  \<^verbatim>\<open>m[k] = v\<close> on a \<^verbatim>\<open>std::map\<close>: the entry of \<open>k\<close> is overwritten where there is one,
  and a new entry is put at its place in the key order otherwise.
\<close>

fun map_assign :: "string \<Rightarrow> 'v \<Rightarrow> (string \<times> 'v) list \<Rightarrow> (string \<times> 'v) list" where
  "map_assign k v [] = [(k, v)]"
| "map_assign k v ((k', v') # m) =
     (if k < k' then (k, v) # (k', v') # m
      else if k = k' then (k, v) # m
      else (k', v') # map_assign k v m)"

text \<open>The constructor: empty hashes, no chunk, no child, size 0, no cached depth.\<close>

definition MerkleNode :: "string \<Rightarrow> bool \<Rightarrow> node" where
  "MerkleNode nm isF = Node nm [] [] [] [] isF 0 (- 1)"

text \<open>
  \<^verbatim>\<open>addChild\<close>, with the parent as it is after the call. The child is a pointer, null
  being \<open>None\<close>.
\<close>

definition addChild :: "node option \<Rightarrow> node \<Rightarrow> (error + unit) \<times> node" where
  "addChild child this =
     (if isFile this then (Inl CannotAddChildToFileNode, this)
      else case child of
             None \<Rightarrow> (Inl CannotAddNullChild, this)
           | Some c \<Rightarrow>
               (Inr (), set_cachedDepth (- 1)
                          (set_children (map_assign (name c) c (children this)) this)))"

lemma size_child:
  "(k, c) \<in> set cs \<Longrightarrow> size c < Suc (size_list (size_prod (\<lambda>_. 0) size) cs)"
  by (induction cs) auto

lemma size_map_of_child:
  "map_of cs k = Some c \<Longrightarrow> size c < Suc (size_list (size_prod (\<lambda>_. 0) size) cs)"
  by (rule size_child[of k]) (rule map_of_SomeD)

text \<open>
  \<^verbatim>\<open>calculateHash\<close> returns the hash and the node as the call leaves it: its own \<open>hash\<close>
  field and those of all nodes below it are written.

  \<open>hash_child\<close> is the body of its loop, for one \<open>childName\<close> of \<open>sortedNames\<close>, on the
  children as they are so far and the string \<open>combined\<close>. \<open>children[childName]\<close> is the
  child stored under a key of the map, so the lookup finds it (\<open>hash_child_found\<close>);
  the child object is written in place, which is the assignment of the written object
  to its entry.
\<close>

definition hash_child ::
  "(node \<Rightarrow> string \<times> node) \<Rightarrow> (string \<times> node) list \<Rightarrow> string \<Rightarrow>
   (string \<times> node) list \<times> string \<Rightarrow> (string \<times> node) list \<times> string" where
  "hash_child calculate cs childName acc =
     (case acc of (cs', combined) \<Rightarrow>
        (case map_of cs childName of
           None \<Rightarrow> (cs', combined)
         | Some child \<Rightarrow>
             (case calculate child of (childHash, child') \<Rightarrow>
                (map_assign childName child' cs',
                 combined @ childName @ '':'' @ childHash @ '';''))))"

lemma hash_child_cong [fundef_cong]:
  "cs = cs' \<Longrightarrow> childName = childName' \<Longrightarrow>
   (\<And>child. map_of cs' childName' = Some child \<Longrightarrow> f child = g child) \<Longrightarrow>
   hash_child f cs childName = hash_child g cs' childName'"
  by (auto simp: hash_child_def fun_eq_iff split: option.splits prod.splits)

function calculateHash :: "(string \<Rightarrow> string) \<Rightarrow> node \<Rightarrow> string \<times> node" where
  "calculateHash sha256 (Node nm h ch chs cs isf sz cd) =
     (if isf then (ch, Node nm ch ch chs cs isf sz cd)
      else if cs = [] then (sha256 nm, Node nm (sha256 nm) ch chs cs isf sz cd)
      else
        let sortedNames = sort (map fst cs);
            (cs', combined) = fold (hash_child (calculateHash sha256) cs) sortedNames (cs, [])
        in (sha256 combined, Node nm (sha256 combined) ch chs cs' isf sz cd))"
  by pat_completeness auto
termination
  by (relation "measure (\<lambda>(H, n). size n)") (simp_all add: size_map_of_child)

text \<open>
  The depth below a node (\<^verbatim>\<open>getDepth\<close> without its cache); it bounds the recursion of
  the verifier, which descends into the children that \<^verbatim>\<open>calculateHash\<close> has written.
\<close>

fun depth_below :: "node \<Rightarrow> nat" where
  "depth_below (Node nm h ch chs cs isf sz cd) =
     foldr (\<lambda>kc m. max (Suc (depth_below (snd kc))) m) cs 0"

abbreviation children_depth :: "(string \<times> node) list \<Rightarrow> nat" where
  "children_depth cs \<equiv> foldr (\<lambda>kc m. max (Suc (depth_below (snd kc))) m) cs 0"

lemma depth_below_child: "(k, c) \<in> set cs \<Longrightarrow> depth_below c < children_depth cs"
  by (induction cs) (auto simp: less_max_iff_disj)

lemma children_depth_le:
  "\<forall>(k, c) \<in> set cs. depth_below c < b \<Longrightarrow> children_depth cs \<le> b"
  by (induction cs) (auto simp: Suc_le_eq)

lemma set_map_assign: "set (map_assign k v m) \<subseteq> insert (k, v) (set m)"
  by (induction m) (auto split: if_splits)

lemma hash_child_entries:
  "(k, c) \<in> set (fst (hash_child f cs n acc)) \<Longrightarrow>
   (k, c) \<in> set (fst acc) \<or> (\<exists>child. map_of cs n = Some child \<and> c = snd (f child))"
  using set_map_assign[of n _ "fst acc"]
  by (cases acc) (auto simp: hash_child_def split: option.splits prod.splits)

lemma fold_hash_child_entries:
  "(k, c) \<in> set (fst (fold (hash_child f cs) names acc)) \<Longrightarrow>
   (k, c) \<in> set (fst acc)
   \<or> (\<exists>n \<in> set names. \<exists>child. map_of cs n = Some child \<and> c = snd (f child))"
proof (induction names arbitrary: acc)
  case Nil
  then show ?case by simp
next
  case (Cons n names)
  from Cons.IH[of "hash_child f cs n acc"] Cons.prems
  have "(k, c) \<in> set (fst (hash_child f cs n acc))
        \<or> (\<exists>n \<in> set names. \<exists>child. map_of cs n = Some child \<and> c = snd (f child))"
    by simp
  then show ?case using hash_child_entries[of k c f cs n acc] by auto
qed

lemma depth_below_calculateHash:
  "depth_below (snd (calculateHash sha256 n)) \<le> depth_below n"
proof (induction sha256 n rule: calculateHash.induct)
  case (1 sha256 nm h ch chs cs isf sz cd)
  show ?case
  proof (cases "isf \<or> cs = []")
    case True
    then show ?thesis by auto
  next
    case False
    obtain cs' combined where
      f: "fold (hash_child (calculateHash sha256) cs) (sort (map fst cs)) (cs, []) = (cs', combined)"
      by (cases "fold (hash_child (calculateHash sha256) cs) (sort (map fst cs)) (cs, [])")
    have "depth_below c < children_depth cs" if "(k, c) \<in> set cs'" for k c
    proof -
      from fold_hash_child_entries[of k c "calculateHash sha256" cs "sort (map fst cs)" "(cs, [])"]
        that f
      consider "(k, c) \<in> set cs"
        | n child where "n \<in> set (sort (map fst cs))" "map_of cs n = Some child"
            "c = snd (calculateHash sha256 child)"
        by auto
      then show ?thesis
      proof cases
        case 1
        then show ?thesis by (rule depth_below_child)
      next
        case 2
        have "depth_below c \<le> depth_below child"
          using "1.IH"[of "sort (map fst cs)" n child] False 2 by simp
        moreover have "depth_below child < children_depth cs"
          using depth_below_child map_of_SomeD[OF 2(2)] by blast
        ultimately show ?thesis by simp
      qed
    qed
    then have "children_depth cs' \<le> children_depth cs"
      by (intro children_depth_le) auto
    then show ?thesis using False f by simp
  qed
qed

text \<open>
  \<^verbatim>\<open>verifyNodeIntegrity\<close> returns its verdict and the node as the call leaves it.
  \<open>verify_children\<close> is its loop over \<open>node->children\<close>, which returns at the first child
  that fails. The null test of the source is the \<open>None\<close> case of \<open>verifyTreeIntegrity\<close>:
  no pointer in a children map is null, \<^verbatim>\<open>addChild\<close> refuses one.
\<close>

function verifyNodeIntegrity :: "(string \<Rightarrow> string) \<Rightarrow> node \<Rightarrow> bool \<times> node"
  and verify_children ::
    "(string \<Rightarrow> string) \<Rightarrow> (string \<times> node) list \<Rightarrow> bool \<times> (string \<times> node) list"
  where
  "verifyNodeIntegrity sha256 node =
     (let originalHash = hash node;
          (calculatedHash, node1) = calculateHash sha256 node
      in if originalHash \<noteq> calculatedHash then (False, node1)
         else let (ok, cs') = verify_children sha256 (children node1)
              in (ok, set_children cs' node1))"
| "verify_children sha256 [] = (True, [])"
| "verify_children sha256 ((k, child) # rest) =
     (let (ok, child') = verifyNodeIntegrity sha256 child
      in if \<not> ok then (False, (k, child') # rest)
         else let (ok', rest') = verify_children sha256 rest
              in (ok', (k, child') # rest'))"
  by pat_completeness auto
termination
proof (relation "measures
     [\<lambda>x. case x of Inl (H, n) \<Rightarrow> depth_below n | Inr (H, cs) \<Rightarrow> children_depth cs,
      \<lambda>x. case x of Inl (H, n) \<Rightarrow> 1 | Inr (H, cs) \<Rightarrow> 0,
      \<lambda>x. case x of Inl (H, n) \<Rightarrow> 0 | Inr (H, cs) \<Rightarrow> length cs]", goal_cases)
  case 1
  show ?case by simp
next
  case (2 sha256 node originalHash r calculatedHash node1)
  then have "node1 = snd (calculateHash sha256 node)"
    by (metis snd_conv)
  then have "depth_below node1 \<le> depth_below node"
    by (simp add: depth_below_calculateHash)
  then show ?case by (cases node1) (auto simp: le_less)
next
  case (3 sha256 k child rest)
  show ?case by (auto simp: less_max_iff_disj)
next
  case (4 sha256 k child rest r ok child')
  show ?case by (auto simp: less_max_iff_disj max_def)
qed

subsection \<open>The tree object\<close>

text \<open>
  The index \<open>file_objects\<close> maps a content hash to a pointer to a file node. Two nodes of
  one build are two objects even when all their fields agree; what tells them apart here
  is the path for which \<^verbatim>\<open>build_node\<close> made the node, the names from the root directory
  down to the entry, and \<^verbatim>\<open>build_node\<close> is called once for a path. A pointer of the index
  is this path together with the node as it is when the pointer is stored.
\<close>

type_synonym node_ptr = "string list \<times> node"

record merkle_tree =
  root :: "node option"
  file_objects :: "(string \<times> node_ptr) list"
  nodes :: "node list"
  CHUNK_SIZE :: nat

definition DEFAULT_CHUNK_SIZE :: nat where
  "DEFAULT_CHUNK_SIZE = 1024 * 1024"

definition MAX_CHUNK_SIZE :: nat where
  "MAX_CHUNK_SIZE = 100 * 1024 * 1024"

definition MIN_CHUNK_SIZE :: nat where
  "MIN_CHUNK_SIZE = 1024"

text \<open>The default constructor.\<close>

definition MerkleTree :: merkle_tree where
  "MerkleTree = \<lparr>root = None, file_objects = [], nodes = [], CHUNK_SIZE = DEFAULT_CHUNK_SIZE\<rparr>"

text \<open>
  A member function that may throw returns its outcome together with the object as the
  call leaves it, so that what an exception leaves behind is part of the result.
  \<^verbatim>\<open>setChunkSize\<close> throws outside the bounds, before the assignment.
\<close>

definition setChunkSize :: "nat \<Rightarrow> merkle_tree \<Rightarrow> (error + unit) \<times> merkle_tree" where
  "setChunkSize chunkSize t =
     (if chunkSize < MIN_CHUNK_SIZE \<or> chunkSize > MAX_CHUNK_SIZE
      then (Inl InvalidChunkSize, t)
      else (Inr (), t\<lparr>CHUNK_SIZE := chunkSize\<rparr>))"

definition getChunkSize :: "merkle_tree \<Rightarrow> nat" where
  "getChunkSize t = CHUNK_SIZE t"

subsection \<open>The file system\<close>

text \<open>
  What a path of \<^verbatim>\<open>std::filesystem\<close> leads to, with the last component of the path as
  its name:
  \<^item> \<open>Missing\<close>: \<^verbatim>\<open>fs::exists\<close> is false (no such path, a dangling link that the parent
    directory lists);
  \<^item> \<open>RegularFile\<close>: \<^verbatim>\<open>fs::is_regular_file\<close> is true; the stream that opening the file
    for reading gives, or \<open>None\<close> when the file cannot be opened;
  \<^item> \<open>Directory\<close>: \<^verbatim>\<open>fs::is_directory\<close> is true; the entries that
    \<^verbatim>\<open>fs::directory_iterator\<close> yields, in its order, and whether the iteration then
    throws instead of reaching its end (at once, when the directory cannot be opened);
  \<^item> \<open>Special\<close>: the path exists and is neither (a socket, a device).
\<close>

text \<open>
  An open \<^verbatim>\<open>ifstream\<close>: the bytes that reading it from the beginning delivers, and the
  position that \<^verbatim>\<open>tellg\<close> reports after \<^verbatim>\<open>seekg(0, ios::end)\<close>, \<open>None\<close> when this seek
  fails. The position is the number of the bytes on an ordinary file
  (\<open>ordinary_file\<close>). It is not on every regular file: a file of the \<^verbatim>\<open>proc\<close> file system
  has the end position \<open>0\<close> and delivers its text all the same, and there are files on
  which the seek fails.
\<close>

datatype file_stream = FileStream (bytes: string) (end_position: "nat option")

definition ordinary_file :: "string \<Rightarrow> file_stream" where
  "ordinary_file content = FileStream content (Some (length content))"

datatype fs_entry =
    Missing string
  | RegularFile string "file_stream option"
  | Directory string "fs_entry list" bool
  | Special string

fun exists_fs :: "fs_entry \<Rightarrow> bool" where
  "exists_fs (Missing nm) = False"
| "exists_fs (RegularFile nm file) = True"
| "exists_fs (Directory nm entries throws) = True"
| "exists_fs (Special nm) = True"

fun is_directory :: "fs_entry \<Rightarrow> bool" where
  "is_directory (Missing nm) = False"
| "is_directory (RegularFile nm file) = False"
| "is_directory (Directory nm entries throws) = True"
| "is_directory (Special nm) = False"

fun filename :: "fs_entry \<Rightarrow> string" where
  "filename (Missing nm) = nm"
| "filename (RegularFile nm file) = nm"
| "filename (Directory nm entries throws) = nm"
| "filename (Special nm) = nm"

subsection \<open>The chunked reader\<close>

text \<open>
  The loop of \<^verbatim>\<open>hash_file_content\<close> on the bytes \<open>rest\<close> that are still unread.
  \<^verbatim>\<open>file.read(buffer, CHUNK_SIZE)\<close> takes the next \<open>CHUNK_SIZE\<close> bytes, or all that are
  left, and is true when it got \<open>CHUNK_SIZE\<close> of them; \<^verbatim>\<open>file.gcount()\<close> is the number it
  got. With \<open>CHUNK_SIZE = 0\<close> every read succeeds and the loop does not end, which is the
  value \<open>None\<close>.
\<close>

partial_function (option) read_chunks ::
  "(string \<Rightarrow> string) \<Rightarrow> nat \<Rightarrow> string \<Rightarrow> string list \<Rightarrow> string \<Rightarrow> (string list \<times> string) option"
  where
  "read_chunks sha256 chunk_size rest chunk_hashes entire_content =
     (if length (take chunk_size rest) = chunk_size \<or> length (take chunk_size rest) > 0
      then read_chunks sha256 chunk_size (drop chunk_size rest)
             (chunk_hashes @ [sha256 (take chunk_size rest)])
             (entire_content @ take chunk_size rest)
      else Some (chunk_hashes, entire_content))"

declare read_chunks.simps [code]

text \<open>
  \<^verbatim>\<open>hash_file_content\<close> on a file that cannot be opened (\<open>None\<close>) or on its stream:
  \<open>(contentHash, fileSize, chunkHashes)\<close>.

  \<open>fileSize\<close> is what \<^verbatim>\<open>tellg\<close> returns after the seek to the end, converted to
  \<^verbatim>\<open>size_t\<close>; no byte that is read enters it. None of the two seeks is checked. When
  the seek to the end fails, the stream is in the failed state: \<^verbatim>\<open>tellg\<close> returns \<open>-1\<close>,
  which is \<open>2 ^ 64 - 1\<close> as a \<^verbatim>\<open>size_t\<close>, the seek to the beginning does nothing, and the
  first \<^verbatim>\<open>read\<close> fails with \<^verbatim>\<open>gcount\<close> \<open>0\<close>, so the body of the loop is not run: no
  chunk, and the content hash is the digest of the empty string. No exception is thrown.
\<close>

definition hash_file_content ::
  "(string \<Rightarrow> string) \<Rightarrow> nat \<Rightarrow> file_stream option \<Rightarrow>
   (error + string \<times> 64 word \<times> string list) option"
  where
  "hash_file_content sha256 chunk_size file =
     (case file of
        None \<Rightarrow> Some (Inl CannotOpenFile)
      | Some stream \<Rightarrow>
          (case end_position stream of
             None \<Rightarrow> Some (Inr (sha256 [], - 1, []))
           | Some pos \<Rightarrow>
               (case read_chunks sha256 chunk_size (bytes stream) [] [] of
                  None \<Rightarrow> None
                | Some (chunk_hashes, entire_content) \<Rightarrow>
                    Some (Inr (sha256 entire_content, of_nat pos, chunk_hashes)))))"

subsection \<open>Building the tree\<close>

text \<open>
  \<^verbatim>\<open>build_node\<close>, with the tree object as the call leaves it; \<open>None\<close> when the call does
  not return. Its argument \<open>path\<close> is the directory \<open>dir\<close> that holds the entry, as the
  names from the root directory down to it, and the entry with its name. \<open>build_entries\<close>
  is the loop over the directory iterator, whose entries have the paths below the
  directory: an entry whose build throws is skipped with a warning. An exception of the
  iterator itself leaves the loop and is thrown again as the error of reading the
  directory.

  The registry \<open>nodes\<close> holds the new node as it is when the pointer is appended; it is
  not read by any function. The index \<open>file_objects\<close> gets the pointer to the file node
  when the content hash, the size and the chunk hashes have been assigned. These fields
  and the name are not written again. The \<open>hash\<close> that \<^verbatim>\<open>calculateHash\<close> writes later is
  written to the node in the tree below \<open>root\<close>, where the path of the pointer leads
  (\<open>node_at\<close>); a node that is not added to the tree is not written again at all.
\<close>

fun build_node ::
    "(string \<Rightarrow> string) \<Rightarrow> string list \<Rightarrow> fs_entry \<Rightarrow> merkle_tree \<Rightarrow>
     ((error + node) \<times> merkle_tree) option"
  and build_entries ::
    "(string \<Rightarrow> string) \<Rightarrow> string list \<Rightarrow> fs_entry list \<Rightarrow> node \<Rightarrow> merkle_tree \<Rightarrow>
     (node \<times> merkle_tree) option"
  where
  "build_node sha256 dir (Missing nm) t = Some (Inl PathDoesNotExist, t)"
| "build_node sha256 dir (RegularFile nm file) t =
     (let node = MerkleNode nm True;
          t1 = t\<lparr>nodes := nodes t @ [node]\<rparr>
      in case hash_file_content sha256 (CHUNK_SIZE t1) file of
           None \<Rightarrow> None
         | Some (Inl e) \<Rightarrow> Some (Inl ErrorProcessingFile, t1)
         | Some (Inr (content_hash, file_size, chunk_hashes)) \<Rightarrow>
             let node' = set_chunkHashes chunk_hashes
                           (set_fileSize file_size (set_contentHash content_hash node))
             in Some (Inr node',
                      t1\<lparr>file_objects :=
                           map_assign content_hash (dir @ [nm], node') (file_objects t1)\<rparr>))"
| "build_node sha256 dir (Special nm) t =
     (let node = MerkleNode nm False
      in Some (Inr node, t\<lparr>nodes := nodes t @ [node]\<rparr>))"
| "build_node sha256 dir (Directory nm entries throws) t =
     (let node = MerkleNode nm False;
          t1 = t\<lparr>nodes := nodes t @ [node]\<rparr>
      in case build_entries sha256 (dir @ [nm]) entries node t1 of
           None \<Rightarrow> None
         | Some (node', t2) \<Rightarrow>
             if throws then Some (Inl ErrorReadingDirectory, t2) else Some (Inr node', t2))"
| "build_entries sha256 dir [] node t = Some (node, t)"
| "build_entries sha256 dir (entry # rest) node t =
     (case build_node sha256 dir entry t of
        None \<Rightarrow> None
      | Some (Inl e, t') \<Rightarrow> build_entries sha256 dir rest node t'
      | Some (Inr childNode, t') \<Rightarrow>
          build_entries sha256 dir rest (snd (addChild (Some childNode) node)) t')"

text \<open>
  \<^verbatim>\<open>build_tree\<close> on what \<open>directory_path\<close> leads to. \<open>root\<close> is assigned when
  \<^verbatim>\<open>build_node\<close> has returned; the pointer returned is \<open>root\<close>. The paths of the nodes
  start at the name of the root directory.
\<close>

definition build_tree ::
  "(string \<Rightarrow> string) \<Rightarrow> fs_entry \<Rightarrow> merkle_tree \<Rightarrow> ((error + node option) \<times> merkle_tree) option"
  where
  "build_tree sha256 directory_path t =
     (if \<not> exists_fs directory_path then Some (Inl DirectoryDoesNotExist, t)
      else if \<not> is_directory directory_path then Some (Inl PathIsNotADirectory, t)
      else
        let t1 = t\<lparr>file_objects := [], nodes := []\<rparr>
        in case build_node sha256 [] directory_path t1 of
             None \<Rightarrow> None
           | Some (Inl e, t2) \<Rightarrow> Some (Inl e, t2)
           | Some (Inr node, t2) \<Rightarrow>
               let t3 = t2\<lparr>root := Some (snd (calculateHash sha256 node))\<rparr>
               in Some (Inr (root t3), t3))"

subsection \<open>Queries\<close>

text \<open>\<^verbatim>\<open>getRoot\<close>.\<close>

definition getRoot :: "merkle_tree \<Rightarrow> node option" where
  "getRoot t = root t"

text \<open>
  \<^verbatim>\<open>calculateStatsRecursive\<close> on the three counters that it is given by reference. They
  are of type \<^verbatim>\<open>size_t\<close>: \<^verbatim>\<open>files++\<close>, \<^verbatim>\<open>directories++\<close> and
  \<^verbatim>\<open>totalSize += node->fileSize\<close> wrap modulo \<open>2 ^ 64\<close>.
\<close>

fun calculateStatsRecursive ::
  "node \<Rightarrow> 64 word \<times> 64 word \<times> 64 word \<Rightarrow> 64 word \<times> 64 word \<times> 64 word" where
  "calculateStatsRecursive (Node nm h ch chs cs isf sz cd) (files, directories, totalSize) =
     (if isf then (files + 1, directories, totalSize + sz)
      else fold (\<lambda>child. calculateStatsRecursive (snd child)) cs
             (files, directories + 1, totalSize))"

definition getTreeStats :: "merkle_tree \<Rightarrow> 64 word \<times> 64 word \<times> 64 word" where
  "getTreeStats t =
     (case root t of
        None \<Rightarrow> (0, 0, 0)
      | Some r \<Rightarrow> calculateStatsRecursive r (0, 0, 0))"

text \<open>
  The export: \<^verbatim>\<open>nodeToJson\<close> and \<^verbatim>\<open>exportToJson\<close>, both \<^verbatim>\<open>const\<close>. \<open>to_string\<close> is
  the decimal text of a number as the stream writes it. A name of \<open>childNames\<close> is a
  key of the map, so \<open>children[childNames[i]]\<close> is the child stored under it.
\<close>

function to_string :: "nat \<Rightarrow> string" where
  "to_string n =
     (if n < 10 then [char_of (48 + n)]
      else to_string (n div 10) @ [char_of (48 + n mod 10)])"
  by pat_completeness auto
termination
  by (relation "measure id") auto

declare to_string.simps [simp del]

definition quote :: string where
  "quote = [CHR 0x22]"

definition newline :: string where
  "newline = [CHR 0x0A]"

function nodeToJson :: "node \<Rightarrow> nat \<Rightarrow> string" where
  "nodeToJson (Node nm h ch chs cs isf sz cd) depth =
     (let indent = replicate (depth * 2) CHR '' '';
          childIndent = replicate ((depth + 1) * 2) CHR '' '';
          childNames = sort (map fst cs)
      in indent @ quote @ nm @ quote @ '': {'' @ newline
         @ childIndent @ quote @ ''type'' @ quote @ '': '' @ quote
         @ (if isf then ''file'' else ''directory'') @ quote @ '','' @ newline
         @ childIndent @ quote @ ''hash'' @ quote @ '': '' @ quote @ h @ quote
         @ (if isf then
              '','' @ newline @ childIndent @ quote @ ''size'' @ quote @ '': '' @ to_string (unat sz)
              @ '','' @ newline @ childIndent @ quote @ ''chunks'' @ quote @ '': ''
              @ to_string (length chs)
              @ '','' @ newline @ childIndent @ quote @ ''content_hash'' @ quote @ '': ''
              @ quote @ ch @ quote
            else if cs \<noteq> [] then
              '','' @ newline @ childIndent @ quote @ ''children'' @ quote @ '': {'' @ newline
              @ concat (map (\<lambda>i. (case map_of cs (childNames ! i) of
                                     None \<Rightarrow> ''null''
                                   | Some child \<Rightarrow> nodeToJson child (depth + 2))
                                  @ (if i < length childNames - 1 then '','' else [])
                                  @ newline)
                         [0..<length childNames])
              @ childIndent @ ''}''
            else [])
         @ newline @ indent @ ''}'')"
  by pat_completeness auto
termination
  by (relation "measure (\<lambda>(n, d). size n)") (simp_all add: size_map_of_child)

definition exportToJson :: "merkle_tree \<Rightarrow> string" where
  "exportToJson t =
     (case root t of
        None \<Rightarrow> ''{}''
      | Some r \<Rightarrow> ''{'' @ newline @ nodeToJson r 1 @ newline @ ''}'')"

text \<open>\<^verbatim>\<open>verifyTreeIntegrity\<close>, with the tree object as the call leaves it.\<close>

definition verifyTreeIntegrity :: "(string \<Rightarrow> string) \<Rightarrow> merkle_tree \<Rightarrow> bool \<times> merkle_tree" where
  "verifyTreeIntegrity sha256 t =
     (case root t of
        None \<Rightarrow> (True, t)
      | Some r \<Rightarrow>
          (let (ok, r') = verifyNodeIntegrity sha256 r
           in (ok, t\<lparr>root := Some r'\<rparr>)))"

text \<open>
  \<^verbatim>\<open>findNodeRecursive\<close>; \<open>find_in_children\<close> is its loop over \<open>node->children\<close>, which
  returns the first result that is not null.
\<close>

fun findNodeRecursive :: "node \<Rightarrow> string \<Rightarrow> node option"
  and find_in_children :: "(string \<times> node) list \<Rightarrow> string \<Rightarrow> node option"
  where
  "findNodeRecursive (Node nm h ch chs cs isf sz cd) query =
     (if nm = query then Some (Node nm h ch chs cs isf sz cd)
      else find_in_children cs query)"
| "find_in_children [] query = None"
| "find_in_children (child # rest) query =
     (case findNodeRecursive (snd child) query of
        Some result \<Rightarrow> Some result
      | None \<Rightarrow> find_in_children rest query)"

definition findNode :: "string \<Rightarrow> merkle_tree \<Rightarrow> node option" where
  "findNode query t =
     (case root t of
        None \<Rightarrow> None
      | Some r \<Rightarrow> findNodeRecursive r query)"

subsection \<open>Invariants of the representation\<close>

text \<open>
  A \<^verbatim>\<open>std::map\<close> is strictly ascending in its keys. A node is well formed when its
  children map is one, its children are stored under their names (\<^verbatim>\<open>addChild\<close> stores
  \<open>child\<close> under \<open>child->name\<close>), a file node has no child (\<^verbatim>\<open>addChild\<close> refuses a file
  node), and its children are well formed.
\<close>

definition valid_map :: "(string \<times> 'v) list \<Rightarrow> bool" where
  "valid_map m = sorted_wrt (<) (map fst m)"

fun wf_node :: "node \<Rightarrow> bool" where
  "wf_node (Node nm h ch chs cs isf sz cd) =
     (valid_map cs \<and> (isf \<longrightarrow> cs = []) \<and> (\<forall>(k, c) \<in> set cs. k = name c \<and> wf_node c))"

text \<open>A node whose stored hashes are those that \<^verbatim>\<open>calculateHash\<close> computes.\<close>

definition hash_consistent :: "(string \<Rightarrow> string) \<Rightarrow> node \<Rightarrow> bool" where
  "hash_consistent sha256 n = (calculateHash sha256 n = (hash n, n))"

subsection \<open>An example\<close>

text \<open>A digest function and a directory for the closed instances below.\<close>

definition example_digest :: "string \<Rightarrow> string" where
  "example_digest s = ''sha('' @ s @ '')''"

text \<open>
  The directory \<open>r\<close> holds the file \<open>b.txt\<close>, the directory \<open>a\<close> with the file \<open>y\<close>, and
  the empty directory \<open>e\<close>; both files hold \<open>hello\<close>, and the iterator yields \<open>b.txt\<close>
  first. \<open>example_root\<close> is the root that \<^verbatim>\<open>build_tree\<close> makes of it
  (\<open>example_build\<close>), \<open>tampered_root\<close> is this root with the stored hash of \<open>b.txt\<close>
  overwritten.
\<close>

definition example_dir :: fs_entry where
  "example_dir =
     Directory ''r''
       [RegularFile ''b.txt'' (Some (ordinary_file ''hello'')),
        Directory ''a'' [RegularFile ''y'' (Some (ordinary_file ''hello''))] False,
        Directory ''e'' [] False]
       False"

definition example_root :: node where
  "example_root =
     Node ''r'' ''sha(a:sha(y:sha(hello););b.txt:sha(hello);e:sha(e);)'' [] []
       [(''a'', Node ''a'' ''sha(y:sha(hello);)'' [] []
                 [(''y'', Node ''y'' ''sha(hello)'' ''sha(hello)'' [''sha(hello)''] [] True 5 (- 1))]
                 False 0 (- 1)),
        (''b.txt'', Node ''b.txt'' ''sha(hello)'' ''sha(hello)'' [''sha(hello)''] [] True 5 (- 1)),
        (''e'', Node ''e'' ''sha(e)'' [] [] [] False 0 (- 1))]
       False 0 (- 1)"

definition tampered_root :: node where
  "tampered_root =
     Node ''r'' ''sha(a:sha(y:sha(hello););b.txt:sha(hello);e:sha(e);)'' [] []
       [(''a'', Node ''a'' ''sha(y:sha(hello);)'' [] []
                 [(''y'', Node ''y'' ''sha(hello)'' ''sha(hello)'' [''sha(hello)''] [] True 5 (- 1))]
                 False 0 (- 1)),
        (''b.txt'', Node ''b.txt'' ''tampered'' ''sha(hello)'' [''sha(hello)''] [] True 5 (- 1)),
        (''e'', Node ''e'' ''sha(e)'' [] [] [] False 0 (- 1))]
       False 0 (- 1)"

text \<open>The tree object after the build of \<open>example_dir\<close> on a new one.\<close>

definition example_tree :: merkle_tree where
  "example_tree =
     \<lparr>root = Some example_root,
      file_objects =
        [(''sha(hello)'',
          [''r'', ''a'', ''y''], Node ''y'' [] ''sha(hello)'' [''sha(hello)''] [] True 5 (- 1))],
      nodes =
        [Node ''r'' [] [] [] [] False 0 (- 1),
         Node ''b.txt'' [] [] [] [] True 0 (- 1),
         Node ''a'' [] [] [] [] False 0 (- 1),
         Node ''y'' [] [] [] [] True 0 (- 1),
         Node ''e'' [] [] [] [] False 0 (- 1)],
      CHUNK_SIZE = 1048576\<rparr>"

text \<open>
  A directory that cannot be opened, and one whose iterator yields a file and then
  throws.
\<close>

definition closed_dir :: fs_entry where
  "closed_dir = Directory ''d'' [] True"

definition broken_dir :: fs_entry where
  "broken_dir = Directory ''d'' [RegularFile ''f'' (Some (ordinary_file ''hello''))] True"




text \<open>
  A file that delivers five bytes and reports the end position \<open>0\<close>, and the directory
  \<open>r\<close> with two files on which the seek to the end fails; \<open>unseekable_tree\<close> is the tree
  object after the build of this directory on a new one (\<open>unseekable_build\<close>).
\<close>

definition unsized_file :: file_stream where
  "unsized_file = FileStream ''Linux'' (Some 0)"

definition unseekable_dir :: fs_entry where
  "unseekable_dir =
     Directory ''r''
       [RegularFile ''p'' (Some (FileStream ''one'' None)),
        RegularFile ''q'' (Some (FileStream ''two'' None))]
       False"

definition unseekable_root :: node where
  "unseekable_root =
     Node ''r'' ''sha(p:sha();q:sha();)'' [] []
       [(''p'', Node ''p'' ''sha()'' ''sha()'' [] [] True (- 1) (- 1)),
        (''q'', Node ''q'' ''sha()'' ''sha()'' [] [] True (- 1) (- 1))]
       False 0 (- 1)"

definition unseekable_tree :: merkle_tree where
  "unseekable_tree =
     \<lparr>root = Some unseekable_root,
      file_objects =
        [(''sha()'', [''r'', ''q''], Node ''q'' [] ''sha()'' [] [] True (- 1) (- 1))],
      nodes =
        [Node ''r'' [] [] [] [] False 0 (- 1),
         Node ''p'' [] [] [] [] True 0 (- 1),
         Node ''q'' [] [] [] [] True 0 (- 1)],
      CHUNK_SIZE = 1048576\<rparr>"

subsection \<open>Windows of a byte sequence\<close>

text \<open>
  The consecutive windows of \<open>c\<close> bytes of a content, the last one possibly shorter:
  the words of the specification for the chunks of a file, against which the loop of
  the reader is compared.
\<close>

function chunks :: "nat \<Rightarrow> 'a list \<Rightarrow> 'a list list" where
  "chunks c xs = (if c = 0 \<or> xs = [] then [] else take c xs # chunks c (drop c xs))"
  by pat_completeness auto
termination
  by (relation "measure (\<lambda>(c, xs). length xs)") auto

declare chunks.simps [simp del]

subsection \<open>The nodes of a tree\<close>

text \<open>
  The nodes below and including a node, each before its children, the children in the
  order of their names; and the three numbers of the statistics, counted on such a list.
\<close>

function preorder :: "node \<Rightarrow> node list" where
  "preorder n = n # concat (map preorder (sort_key name (map snd (children n))))"
  by pat_completeness auto
termination
proof (relation "measure size", goal_cases)
  case 1
  show ?case by simp
next
  case (2 n c)
  then have "c \<in> snd ` set (children n)" by simp
  then obtain k where "(k, c) \<in> set (children n)" by force
  then show ?case by (cases n) (auto dest: size_child)
qed

declare preorder.simps [simp del]

definition count_files :: "node list \<Rightarrow> nat" where
  "count_files ns = length (filter isFile ns)"

definition count_directories :: "node list \<Rightarrow> nat" where
  "count_directories ns = length (filter (\<lambda>n. \<not> isFile n) ns)"

definition total_size :: "node list \<Rightarrow> nat" where
  "total_size ns = sum_list (map (\<lambda>n. unat (fileSize n)) (filter isFile ns))"


subsection \<open>What a build makes\<close>

text \<open>
  The effect of \<^verbatim>\<open>build_node\<close> on an entry, read off the entry: the node it returns
  (\<open>node_of\<close>, \<open>None\<close> when it throws, with \<open>build_error\<close>), the nodes it appends to the
  registry in the order of their creation (\<open>created\<close>), and the assignments to the index
  in the order in which the files are processed (\<open>registered\<close>), with the paths starting
  at the name of the entry; \<open>in_directory\<close> puts the directory of the entry in front.
  \<open>file_node\<close> is the node of a file that can be opened. \<open>build_node_eq\<close> shows that this
  is what \<^verbatim>\<open>build_node\<close> does.
\<close>

definition file_node :: "(string \<Rightarrow> string) \<Rightarrow> nat \<Rightarrow> string \<Rightarrow> file_stream \<Rightarrow> node" where
  "file_node digest c nm stream =
     (case end_position stream of
        None \<Rightarrow> Node nm [] (digest []) [] [] True (- 1) (- 1)
      | Some pos \<Rightarrow>
          Node nm [] (digest (bytes stream)) (map digest (chunks c (bytes stream))) [] True
            (of_nat pos) (- 1))"

definition add_built :: "node option \<Rightarrow> node \<Rightarrow> node" where
  "add_built child this = (case child of None \<Rightarrow> this | Some c \<Rightarrow> snd (addChild (Some c) this))"

fun node_of :: "(string \<Rightarrow> string) \<Rightarrow> nat \<Rightarrow> fs_entry \<Rightarrow> node option" where
  "node_of digest c (Missing nm) = None"
| "node_of digest c (RegularFile nm None) = None"
| "node_of digest c (RegularFile nm (Some stream)) = Some (file_node digest c nm stream)"
| "node_of digest c (Special nm) = Some (MerkleNode nm False)"
| "node_of digest c (Directory nm entries throws) =
     (if throws then None
      else Some (fold (\<lambda>e. add_built (node_of digest c e)) entries (MerkleNode nm False)))"

fun build_error :: "fs_entry \<Rightarrow> error" where
  "build_error (Missing nm) = PathDoesNotExist"
| "build_error (RegularFile nm file) = ErrorProcessingFile"
| "build_error (Special nm) = PathDoesNotExist"
| "build_error (Directory nm entries throws) = ErrorReadingDirectory"

fun created :: "fs_entry \<Rightarrow> node list" where
  "created (Missing nm) = []"
| "created (RegularFile nm file) = [MerkleNode nm True]"
| "created (Special nm) = [MerkleNode nm False]"
| "created (Directory nm entries throws) = MerkleNode nm False # concat (map created entries)"

definition in_directory :: "string list \<Rightarrow> (string \<times> node_ptr) list \<Rightarrow> (string \<times> node_ptr) list" where
  "in_directory dir regs = map (\<lambda>(d, path, n). (d, dir @ path, n)) regs"

fun registered :: "(string \<Rightarrow> string) \<Rightarrow> nat \<Rightarrow> fs_entry \<Rightarrow> (string \<times> node_ptr) list" where
  "registered digest c (Missing nm) = []"
| "registered digest c (RegularFile nm None) = []"
| "registered digest c (RegularFile nm (Some stream)) =
     [(contentHash (file_node digest c nm stream), [nm], file_node digest c nm stream)]"
| "registered digest c (Special nm) = []"
| "registered digest c (Directory nm entries throws) =
     in_directory [nm] (concat (map (registered digest c) entries))"

definition register_all :: "(string \<times> 'v) list \<Rightarrow> (string \<times> 'v) list \<Rightarrow> (string \<times> 'v) list" where
  "register_all regs m = fold (\<lambda>(d, n). map_assign d n) regs m"


definition outcome :: "(string \<Rightarrow> string) \<Rightarrow> nat \<Rightarrow> fs_entry \<Rightarrow> error + node" where
  "outcome digest c e = (case node_of digest c e of None \<Rightarrow> Inl (build_error e) | Some n \<Rightarrow> Inr n)"


subsection \<open>The same contents in another order\<close>

text \<open>
  Two entries with the same contents: the same names, files, and structure, where the
  iterator of a directory may yield the entries in any order. In a directory no two
  entries have the same name. \<open>without_chunks\<close> forgets the chunk hashes of all nodes.
\<close>

fun sibling_names_distinct :: "fs_entry \<Rightarrow> bool" where
  "sibling_names_distinct (Directory nm entries throws) =
     (distinct (map filename entries) \<and> (\<forall>e \<in> set entries. sibling_names_distinct e))"
| "sibling_names_distinct e = True"

inductive reordered :: "fs_entry \<Rightarrow> fs_entry \<Rightarrow> bool" where
  same: "reordered e e"
| entries: "list_all2 reordered es es'' \<Longrightarrow> mset es' = mset es'' \<Longrightarrow>
            reordered (Directory nm es throws) (Directory nm es' throws)"

fun without_chunks :: "node \<Rightarrow> node" where
  "without_chunks (Node nm h ch chs cs isf sz cd) =
     Node nm h ch [] (map (\<lambda>(k, c). (k, without_chunks c)) cs) isf sz cd"

text \<open>The example directory as another iterator yields it.\<close>

definition example_dir_reordered :: fs_entry where
  "example_dir_reordered =
     Directory ''r''
       [Directory ''e'' [] False,
        Directory ''a'' [RegularFile ''y'' (Some (ordinary_file ''hello''))] False,
        RegularFile ''b.txt'' (Some (ordinary_file ''hello''))]
       False"

section \<open>The hash of a node\<close>

lemma node_induct [case_names node]:
  assumes "\<And>n. (\<And>k c. (k, c) \<in> set (children n) \<Longrightarrow> P c) \<Longrightarrow> P n"
  shows "P n"
proof (induction n rule: measure_induct_rule[where f = size])
  case (less n)
  show ?case
  proof (rule assms)
    fix k c assume "(k, c) \<in> set (children n)"
    then have "size c < size n" by (cases n) (auto dest: size_child)
    then show "P c" by (rule less)
  qed
qed

lemma valid_map_sorted: "valid_map m \<Longrightarrow> sort (map fst m) = map fst m"
  unfolding valid_map_def
  by (simp add: sorted_sort_id strict_sorted_iff)

lemma valid_map_distinct: "valid_map m \<Longrightarrow> distinct (map fst m)"
  unfolding valid_map_def by (simp add: strict_sorted_iff)

lemma map_assign_found:
  "\<forall>k' \<in> fst ` set xs. k' < k \<Longrightarrow> map_assign k v (xs @ (k, v0) # ys) = xs @ (k, v) # ys"
  by (induction xs) auto

lemma hash_child_found:
  "map_of cs n = Some child \<Longrightarrow>
   hash_child f cs n (cs', comb)
     = (map_assign n (snd (f child)) cs', comb @ n @ '':'' @ fst (f child) @ '';'')"
  by (simp add: hash_child_def split: prod.splits)

lemma fold_hash_child_valid_aux:
  assumes "valid_map (xs @ ys)"
  shows "fold (hash_child f (xs @ ys)) (map fst ys) (map (\<lambda>(k, c). (k, snd (f c))) xs @ ys, comb)
         = (map (\<lambda>(k, c). (k, snd (f c))) (xs @ ys),
            comb @ concat (map (\<lambda>(k, c). k @ '':'' @ fst (f c) @ '';'') ys))"
  using assms
proof (induction ys arbitrary: xs comb)
  case Nil
  then show ?case by simp
next
  case (Cons kc ys)
  obtain k c where kc: "kc = (k, c)" by (cases kc)
  have d: "distinct (map fst (xs @ (k, c) # ys))"
    using valid_map_distinct[OF Cons.prems] kc by simp
  have lookup: "map_of (xs @ (k, c) # ys) k = Some c"
    using d by (intro map_of_is_SomeI) auto
  have less: "\<forall>k' \<in> fst ` set (map (\<lambda>(k, c). (k, snd (f c))) xs). k' < k"
    using Cons.prems kc by (auto simp: valid_map_def sorted_wrt_append)
  have step: "hash_child f (xs @ (k, c) # ys) k (map (\<lambda>(k, c). (k, snd (f c))) xs @ (k, c) # ys, comb)
      = (map (\<lambda>(k, c). (k, snd (f c))) (xs @ [(k, c)]) @ ys, comb @ k @ '':'' @ fst (f c) @ '';'')"
    using map_assign_found[OF less, of "snd (f c)" c ys]
    by (simp add: hash_child_found[OF lookup])
  have "valid_map ((xs @ [(k, c)]) @ ys)" using Cons.prems kc by simp
  from Cons.IH[OF this, of "comb @ k @ '':'' @ fst (f c) @ '';''"] step
  show ?case by (simp add: kc)
qed

lemma fold_hash_child_valid:
  assumes "valid_map cs"
  shows "fold (hash_child f cs) (sort (map fst cs)) (cs, [])
         = (map (\<lambda>(k, c). (k, snd (f c))) cs,
            concat (map (\<lambda>(k, c). k @ '':'' @ fst (f c) @ '';'') cs))"
  using fold_hash_child_valid_aux[of "[]" cs f "[]"] assms
  by (simp add: valid_map_sorted)

lemma calculateHash_valid:
  assumes "valid_map cs" "\<not> isf" "cs \<noteq> []"
  shows "calculateHash sha256 (Node nm h ch chs cs isf sz cd) =
     (sha256 (concat (map (\<lambda>(k, c). k @ '':'' @ fst (calculateHash sha256 c) @ '';'') cs)),
      Node nm (sha256 (concat (map (\<lambda>(k, c). k @ '':'' @ fst (calculateHash sha256 c) @ '';'') cs)))
        ch chs (map (\<lambda>(k, c). (k, snd (calculateHash sha256 c))) cs) isf sz cd)"
  using assms by (simp add: fold_hash_child_valid)

lemma calculateHash_file:
  "calculateHash sha256 (Node nm h ch chs cs True sz cd) = (ch, Node nm ch ch chs cs True sz cd)"
  by simp

lemma calculateHash_empty:
  "calculateHash sha256 (Node nm h ch chs [] False sz cd)
     = (sha256 nm, Node nm (sha256 nm) ch chs [] False sz cd)"
  by simp

declare calculateHash.simps [simp del]
declare verifyNodeIntegrity.simps [simp del]

lemma calculateHash_fields:
  "name (snd (calculateHash sha256 n)) = name n"
  "hash (snd (calculateHash sha256 n)) = fst (calculateHash sha256 n)"
  "contentHash (snd (calculateHash sha256 n)) = contentHash n"
  "chunkHashes (snd (calculateHash sha256 n)) = chunkHashes n"
  "isFile (snd (calculateHash sha256 n)) = isFile n"
  "fileSize (snd (calculateHash sha256 n)) = fileSize n"
  "cachedDepth (snd (calculateHash sha256 n)) = cachedDepth n"
  by (cases n; simp add: calculateHash.simps Let_def split: prod.splits)+

lemma wf_calculateHash: "wf_node n \<Longrightarrow> wf_node (snd (calculateHash sha256 n))"
proof (induction n rule: node_induct)
  case (node n)
  obtain nm h ch chs cs isf sz cd where n: "n = Node nm h ch chs cs isf sz cd" by (cases n)
  show ?case
  proof (cases "isf \<or> cs = []")
    case True
    then show ?thesis using node.prems n by (auto simp: calculateHash.simps)
  next
    case False
    then have v: "valid_map cs" "\<not> isf" "cs \<noteq> []" using node.prems n by auto
    have "valid_map (map (\<lambda>(k, c). (k, snd (calculateHash sha256 c))) cs)"
      using v(1) by (simp add: valid_map_def case_prod_unfold comp_def)
    moreover have "\<forall>(k, c) \<in> set cs. k = name (snd (calculateHash sha256 c))
        \<and> wf_node (snd (calculateHash sha256 c))"
      using node.IH node.prems n by (auto simp: calculateHash_fields)
    ultimately show ?thesis using v n by (auto simp: calculateHash_valid)
  qed
qed

lemma calculateHash_idem:
  "wf_node n \<Longrightarrow> calculateHash sha256 (snd (calculateHash sha256 n)) = calculateHash sha256 n"
proof (induction n rule: node_induct)
  case (node n)
  obtain nm h ch chs cs isf sz cd where n: "n = Node nm h ch chs cs isf sz cd" by (cases n)
  show ?case
  proof (cases "isf \<or> cs = []")
    case True
    then show ?thesis using node.prems n by (auto simp: calculateHash.simps)
  next
    case False
    then have v: "valid_map cs" "\<not> isf" "cs \<noteq> []" using node.prems n by auto
    let ?cs' = "map (\<lambda>(k, c). (k, snd (calculateHash sha256 c))) cs"
    have v': "valid_map ?cs'" "?cs' \<noteq> []"
      using v by (simp_all add: valid_map_def case_prod_unfold comp_def)
    have ih: "\<And>k c. (k, c) \<in> set cs \<Longrightarrow>
        calculateHash sha256 (snd (calculateHash sha256 c)) = calculateHash sha256 c"
      using node.IH node.prems n by auto
    have 1: "map (\<lambda>(k, c). k @ '':'' @ fst (calculateHash sha256 c) @ '';'') ?cs'
           = map (\<lambda>(k, c). k @ '':'' @ fst (calculateHash sha256 c) @ '';'') cs"
      using ih by (auto simp: case_prod_unfold)
    have 2: "map (\<lambda>(k, c). (k, snd (calculateHash sha256 c))) ?cs' = ?cs'"
      using ih by (auto simp: case_prod_unfold)
    show ?thesis
      unfolding n calculateHash_valid[OF v] snd_conv calculateHash_valid[OF v'(1) v(2) v'(2)] 1 2
      by simp
  qed
qed

lemma hash_consistent_calculateHash:
  "wf_node n \<Longrightarrow> hash_consistent sha256 (snd (calculateHash sha256 n))"
  unfolding hash_consistent_def
  by (simp add: calculateHash_idem calculateHash_fields prod_eq_iff)

lemma hash_consistent_children:
  assumes "wf_node n" "hash_consistent sha256 n" "(k, c) \<in> set (children n)"
  shows "hash_consistent sha256 c"
proof -
  obtain nm h ch chs cs isf sz cd where n: "n = Node nm h ch chs cs isf sz cd" by (cases n)
  have v: "valid_map cs" "\<not> isf" "cs \<noteq> []" using assms n by auto
  from assms(2) have "map (\<lambda>(k, c). (k, snd (calculateHash sha256 c))) cs = cs"
    unfolding hash_consistent_def n calculateHash_valid[OF v] by simp
  then have "map (\<lambda>(k, c). (k, snd (calculateHash sha256 c))) cs = map (\<lambda>x. x) cs" by simp
  then have "(\<lambda>(k, c). (k, snd (calculateHash sha256 c))) (k, c) = (k, c)"
    unfolding map_eq_conv using assms(3) n by auto
  then have "snd (calculateHash sha256 c) = c" by simp
  then show ?thesis
    unfolding hash_consistent_def using calculateHash_fields(2)[of sha256 c]
    by (simp add: prod_eq_iff)
qed

lemma wf_node_children: "wf_node n \<Longrightarrow> (k, c) \<in> set (children n) \<Longrightarrow> wf_node c"
  by (cases n) auto

lemma verify_consistent:
  "wf_node n \<Longrightarrow> hash_consistent sha256 n \<Longrightarrow> verifyNodeIntegrity sha256 n = (True, n)"
proof (induction n rule: node_induct)
  case (node n)
  have ch: "verifyNodeIntegrity sha256 c = (True, c)" if "(k, c) \<in> set (children n)" for k c
    using node.IH[OF that wf_node_children[OF node.prems(1) that]
        hash_consistent_children[OF node.prems that]] .
  have "set cs \<subseteq> set (children n) \<Longrightarrow> verify_children sha256 cs = (True, cs)" for cs
    by (induction cs) (auto simp: ch)
  then have "verify_children sha256 (children n) = (True, children n)" by simp
  then show ?case
    using node.prems(2) unfolding hash_consistent_def
    by (cases n) (simp add: verifyNodeIntegrity.simps)
qed

lemma verifyNodeIntegrity_wf:
  assumes "wf_node n"
  shows "verifyNodeIntegrity sha256 n
         = (hash n = fst (calculateHash sha256 n), snd (calculateHash sha256 n))"
proof (cases "hash n = fst (calculateHash sha256 n)")
  case False
  then show ?thesis by (auto simp: verifyNodeIntegrity.simps split: prod.splits)
next
  case True
  let ?n1 = "snd (calculateHash sha256 n)"
  have w: "wf_node ?n1" and c: "hash_consistent sha256 ?n1"
    using assms by (simp_all add: wf_calculateHash hash_consistent_calculateHash)
  have ch: "verifyNodeIntegrity sha256 c = (True, c)" if "(k, c) \<in> set (children ?n1)" for k c
    using verify_consistent[OF wf_node_children[OF w that] hash_consistent_children[OF w c that]] .
  have "set cs \<subseteq> set (children ?n1) \<Longrightarrow> verify_children sha256 cs = (True, cs)" for cs
    by (induction cs) (auto simp: ch)
  then have "verify_children sha256 (children ?n1) = (True, children ?n1)" by simp
  then show ?thesis using True
    by (cases ?n1) (auto simp add: verifyNodeIntegrity.simps split: prod.splits)
qed

lemma sort_key_children:
  assumes "wf_node n"
  shows "sort_key name (map snd (children n)) = map snd (children n)"
    and "map (\<lambda>c. name c) (map snd (children n)) = map fst (children n)"
proof -
  obtain nm h ch chs cs isf sz cd where n: "n = Node nm h ch chs cs isf sz cd" by (cases n)
  have k: "map name (map snd cs) = map fst cs" using assms n by (auto simp: comp_def)
  then show "map (\<lambda>c. name c) (map snd (children n)) = map fst (children n)" using n by simp
  have "sorted (map fst cs)" using assms n by (simp add: valid_map_def strict_sorted_iff)
  then have "sorted (map name (map snd cs))" by (simp only: k)
  then have "sort_key name (map snd cs) = map snd cs" by (rule sort_key_id_if_sorted)
  then show "sort_key name (map snd (children n)) = map snd (children n)"
    using n by simp
qed

text \<open>
  C1. On a well-formed node, \<^verbatim>\<open>calculateHash\<close> returns the content hash of a file node,
  the digest of its own name for a directory node without children, and for a directory
  node with children the digest of the concatenation of \<open>name:childHash;\<close> over the
  children sorted by name, where \<open>childHash\<close> is what \<^verbatim>\<open>calculateHash\<close> returns on the
  child. The value is stored in the \<open>hash\<close> field. Nothing but the node itself enters the
  value, so the place of the node in a tree does not.
\<close>

theorem calculateHash_rule:
  assumes "wf_node n"
  shows "fst (calculateHash sha256 n) =
           (if isFile n then contentHash n
            else if children n = [] then sha256 (name n)
            else sha256 (concat (map (\<lambda>c. name c @ '':'' @ fst (calculateHash sha256 c) @ '';'')
                                   (sort_key name (map snd (children n))))))
         \<and> hash (snd (calculateHash sha256 n)) = fst (calculateHash sha256 n)"
proof -
  obtain nm h ch chs cs isf sz cd where n: "n = Node nm h ch chs cs isf sz cd" by (cases n)
  have names: "\<forall>(k, c) \<in> set cs. k = name c" using assms n by auto
  have "map (\<lambda>(k, c). k @ '':'' @ fst (calculateHash sha256 c) @ '';'') cs
      = map ((\<lambda>c. name c @ '':'' @ fst (calculateHash sha256 c) @ '';'') \<circ> snd) cs"
    by (rule map_cong[OF refl]) (use names in auto)
  then have m: "map (\<lambda>(k, c). k @ '':'' @ fst (calculateHash sha256 c) @ '';'') cs
      = map (\<lambda>c. name c @ '':'' @ fst (calculateHash sha256 c) @ '';'')
          (sort_key name (map snd cs))"
    using sort_key_children(1)[OF assms] n by simp
  show ?thesis
  proof (cases "isf \<or> cs = []")
    case True
    then show ?thesis using assms n
      by (auto simp: calculateHash_file calculateHash_empty calculateHash_fields)
  next
    case False
    then have v: "valid_map cs" "\<not> isf" "cs \<noteq> []" using assms n by auto
    show ?thesis
      unfolding n calculateHash_valid[OF v] m using v by simp
  qed
qed

theorem calculateHash_rule_witness:
  "wf_node example_root
   \<and> fst (calculateHash example_digest example_root)
       = example_digest (''a:'' @ example_digest (''y:'' @ ''sha(hello)'' @ '';'') @ '';''
                         @ ''b.txt:'' @ ''sha(hello)'' @ '';''
                         @ ''e:'' @ example_digest ''e'' @ '';'')
   \<and> hash (snd (calculateHash example_digest example_root))
       = fst (calculateHash example_digest example_root)"
proof -
  have w: "wf_node example_root" by (simp add: example_root_def valid_map_def)
  have "fst (calculateHash example_digest example_root)
       = example_digest (''a:'' @ example_digest (''y:'' @ ''sha(hello)'' @ '';'') @ '';''
                         @ ''b.txt:'' @ ''sha(hello)'' @ '';''
                         @ ''e:'' @ example_digest ''e'' @ '';'')"
    by (simp add: example_root_def calculateHash.simps hash_child_def example_digest_def)
  then show ?thesis using w calculateHash_rule[OF w, of example_digest] by simp
qed

section \<open>Integrity verification\<close>

text \<open>
  \<open>verifyNodeIntegrity_wf\<close> above says what the verifier does on a well-formed node: it
  compares the stored hash of that node alone with the recomputed one, and leaves the
  node with all hashes recomputed. The recomputation has already written the hashes of
  the nodes below when the loop over the children reads them.

  C2. The tree object \<open>example_tree\<close> built from the directory \<open>example_dir\<close>, with the
  stored hash of the file \<open>b.txt\<close> overwritten by \<open>tampered\<close>: \<^verbatim>\<open>verifyTreeIntegrity\<close>
  returns true, and leaves the tree object as it was built, the hash of \<open>b.txt\<close> written
  back.
\<close>

theorem verify_misses_tampered_child:
  "tampered_root \<noteq> example_root
   \<and> verifyTreeIntegrity example_digest (example_tree\<lparr>root := Some tampered_root\<rparr>)
       = (True, example_tree)"
proof -
  have w: "wf_node tampered_root" by (simp add: tampered_root_def valid_map_def)
  have c: "calculateHash example_digest tampered_root = (hash tampered_root, example_root)"
    by (simp add: tampered_root_def example_root_def calculateHash.simps hash_child_def
        example_digest_def)
  have d: "tampered_root \<noteq> example_root"
    by (simp add: tampered_root_def example_root_def)
  show ?thesis
    using d by (simp add: verifyTreeIntegrity_def verifyNodeIntegrity_wf[OF w] c example_tree_def)
qed

section \<open>The chunked reader\<close>

lemma read_chunks_eq:
  "0 < c \<Longrightarrow> read_chunks sha256 c rest hs ec = Some (hs @ map sha256 (chunks c rest), ec @ rest)"
proof (induction c rest arbitrary: hs ec rule: chunks.induct)
  case (1 c xs)
  show ?case
  proof (cases "xs = []")
    case True
    then show ?thesis using 1(2)
      by (subst read_chunks.simps) (simp add: chunks.simps)
  next
    case False
    have t: "0 < length (take c xs)" using False 1(2) by simp
    have "read_chunks sha256 c xs hs ec
          = read_chunks sha256 c (drop c xs) (hs @ [sha256 (take c xs)]) (ec @ take c xs)"
      using t by (subst read_chunks.simps) simp
    also have "\<dots> = Some ((hs @ [sha256 (take c xs)]) @ map sha256 (chunks c (drop c xs)),
                        (ec @ take c xs) @ drop c xs)"
      using 1 False by simp
    also have "\<dots> = Some (hs @ map sha256 (chunks c xs), ec @ xs)"
      using False 1(2) by (subst (2) chunks.simps) simp
    finally show ?thesis .
  qed
qed

lemma concat_chunks: "0 < c \<Longrightarrow> concat (chunks c xs) = xs"
  by (induction c xs rule: chunks.induct) (subst chunks.simps, auto)

lemma length_chunks: "0 < c \<Longrightarrow> length (chunks c xs) = (length xs + c - 1) div c"
proof (induction c xs rule: chunks.induct)
  case (1 c xs)
  show ?case
  proof (cases "xs = []")
    case True
    then show ?thesis using 1(2) by (simp add: chunks.simps)
  next
    case False
    then have l: "0 < length xs" by simp
    have "length (chunks c xs) = Suc ((length xs - c + c - 1) div c)"
      using 1 False by (subst chunks.simps) simp
    also have "\<dots> = (length xs + c - 1) div c"
    proof (cases "c \<le> length xs")
      case True
      have a: "length xs - c + c - 1 = length xs - 1" using True by simp
      have b: "length xs + c - 1 = (length xs - 1) + c" using l by linarith
      have "(length xs - 1 + c) div c = Suc ((length xs - 1) div c)"
        using 1(2) div_add_self2[of c "length xs - 1"] by simp
      then show ?thesis unfolding a b by simp
    next
      case False
      then have "length xs + c - 1 < 2 * c" "c \<le> length xs + c - 1" using l by linarith+
      then have "(length xs + c - 1) div c = 1" using 1(2)
        by (metis One_nat_def Suc_1 div_nat_eqI mult.commute mult.right_neutral nat_mult_1_right)
      then show ?thesis using False 1(2) by simp
    qed
    finally show ?thesis .
  qed
qed

lemma chunks_nth:
  "0 < c \<Longrightarrow> i < length (chunks c xs) \<Longrightarrow> chunks c xs ! i = take c (drop (i * c) xs)"
proof (induction c xs arbitrary: i rule: chunks.induct)
  case (1 c xs)
  from 1(3) have ne: "xs \<noteq> []" using 1(2) by (auto simp: chunks.simps)
  show ?case
  proof (cases i)
    case 0
    then show ?thesis using ne 1(2) by (subst chunks.simps) simp
  next
    case (Suc j)
    have "j < length (chunks c (drop c xs))"
      using 1(3) ne 1(2) Suc by (subst (asm) chunks.simps) simp
    from 1(1)[OF _ 1(2) this] ne 1(2)
    have "chunks c (drop c xs) ! j = take c (drop (j * c) (drop c xs))" by simp
    then show ?thesis using ne 1(2) Suc
      by (subst chunks.simps) (simp add: add.commute)
  qed
qed

lemma hash_file_content_valid:
  "0 < c \<Longrightarrow>
   hash_file_content sha256 c (Some stream)
     = Some (Inr (contentHash (file_node sha256 c nm stream), fileSize (file_node sha256 c nm stream),
                  chunkHashes (file_node sha256 c nm stream)))"
  by (simp add: hash_file_content_def file_node_def read_chunks_eq split: option.splits)

text \<open>
  A file that delivers five bytes and reports the end position \<open>0\<close>: the size returned
  is \<open>0\<close>, with the hash of one chunk, where \<open>\<lceil>0 / c\<rceil> = 0\<close>. The same bytes on a stream
  whose seek to the end fails: the size returned is \<open>2 ^ 64 - 1\<close>, with the digest of the
  empty string and no chunk.
\<close>

theorem hash_file_content_size_not_read:
  "hash_file_content example_digest 1048576 (Some unsized_file)
     = Some (Inr (''sha(Linux)'', 0, [''sha(Linux)'']))
   \<and> length (bytes unsized_file) = 5
   \<and> (0 + 1048576 - 1) div 1048576 = (0::nat)
   \<and> hash_file_content example_digest 1048576 (Some (FileStream ''Linux'' None))
     = Some (Inr (''sha()'', 18446744073709551615, []))"
  by (simp add: hash_file_content_def unsized_file_def read_chunks_eq chunks.simps
      example_digest_def)

text \<open>
  C3, as amended. For a file that can be opened, on which the seek to the end succeeds
  and reports the position \<open>pos\<close>, and a chunk size \<open>c > 0\<close>, \<^verbatim>\<open>hash_file_content\<close>
  returns: the digest of the whole content that the file delivers; the position \<open>pos\<close>
  as a \<^verbatim>\<open>size_t\<close>; and the digests of the windows of \<open>c\<close> bytes of the content in the
  order of their offsets. The windows concatenate to the content, window \<open>i\<close> is the \<open>c\<close>
  bytes from offset \<open>i * c\<close> (fewer at the end), and there are \<open>\<lceil>s / c\<rceil>\<close> of them for \<open>s\<close>
  bytes, none for the empty content. The size returned is \<open>s\<close> when the position reported
  is \<open>s\<close>, as on an ordinary file, and \<open>s < 2 ^ 64\<close>. With another chunk size \<open>c'\<close> the
  content hash and the size are the same.
\<close>

theorem hash_file_content_chunks:
  assumes "0 < c" and "0 < c'" and "end_position stream = Some pos"
  shows "hash_file_content sha256 c (Some stream)
           = Some (Inr (sha256 (bytes stream), of_nat pos, map sha256 (chunks c (bytes stream))))
         \<and> concat (chunks c (bytes stream)) = bytes stream
         \<and> (\<forall>i < length (chunks c (bytes stream)).
               chunks c (bytes stream) ! i = take c (drop (i * c) (bytes stream)))
         \<and> length (chunks c (bytes stream)) = (length (bytes stream) + c - 1) div c
         \<and> (bytes stream = [] \<longrightarrow> chunks c (bytes stream) = [])
         \<and> (pos = length (bytes stream) \<and> pos < 2 ^ 64 \<longrightarrow>
               unat (of_nat pos :: 64 word) = length (bytes stream))
         \<and> hash_file_content sha256 c' (Some stream)
           = Some (Inr (sha256 (bytes stream), of_nat pos, map sha256 (chunks c' (bytes stream))))"
  using assms
  by (simp add: hash_file_content_def read_chunks_eq concat_chunks chunks_nth length_chunks
      chunks.simps[of c "[]"] unat_of_nat take_bit_nat_eq_self)

theorem hash_file_content_chunks_witness:
  "(0::nat) < 1024 \<and> (0::nat) < 1048576
   \<and> end_position (ordinary_file ''hello'') = Some 5
   \<and> end_position (ordinary_file []) = Some 0
   \<and> bytes (ordinary_file ''hello'') = ''hello''
   \<and> hash_file_content example_digest 1024 (Some (ordinary_file ''hello''))
       = Some (Inr (''sha(hello)'', 5, [''sha(hello)'']))
   \<and> hash_file_content example_digest 1048576 (Some (ordinary_file ''hello''))
       = Some (Inr (''sha(hello)'', 5, [''sha(hello)'']))
   \<and> hash_file_content example_digest 1024 (Some (ordinary_file []))
       = Some (Inr (''sha()'', 0, []))
   \<and> unat (5 :: 64 word) = length ''hello''"
  using hash_file_content_chunks[of 1024 1048576 "ordinary_file ''hello''" 5 example_digest]
    hash_file_content_chunks[of 1024 1048576 "ordinary_file []" 0 example_digest]
  by (simp add: ordinary_file_def chunks.simps example_digest_def)

section \<open>The build\<close>

lemma register_all_append [simp]:
  "register_all (xs @ ys) m = register_all ys (register_all xs m)"
  by (simp add: register_all_def)

lemma register_all_Nil [simp]: "register_all [] m = m"
  by (simp add: register_all_def)

lemma in_directory_Nil [simp]: "in_directory [] regs = regs"
  by (simp add: in_directory_def case_prod_unfold)

lemma in_directory_append [simp]:
  "in_directory dir (xs @ ys) = in_directory dir xs @ in_directory dir ys"
  by (simp add: in_directory_def)

lemma in_directory_empty [simp]: "in_directory dir [] = []"
  by (simp add: in_directory_def)

lemma in_directory_in_directory [simp]:
  "in_directory dir (in_directory dir' regs) = in_directory (dir @ dir') regs"
  by (simp add: in_directory_def case_prod_unfold)

lemma build_node_eq:
  "0 < CHUNK_SIZE t \<Longrightarrow>
   build_node sha256 dir e t
     = Some (outcome sha256 (CHUNK_SIZE t) e,
             t\<lparr>file_objects :=
                 register_all (in_directory dir (registered sha256 (CHUNK_SIZE t) e)) (file_objects t),
               nodes := nodes t @ created e\<rparr>)"
  and build_entries_eq:
  "0 < CHUNK_SIZE t \<Longrightarrow>
   build_entries sha256 dir es node t
     = Some (fold (\<lambda>e. add_built (node_of sha256 (CHUNK_SIZE t) e)) es node,
             t\<lparr>file_objects :=
                 register_all (in_directory dir (concat (map (registered sha256 (CHUNK_SIZE t)) es)))
                   (file_objects t),
               nodes := nodes t @ concat (map created es)\<rparr>)"
proof (induction sha256 dir e t and sha256 dir es node t rule: build_node_build_entries.induct)
  case (1 sha256 dir nm t)
  then show ?case by (simp add: outcome_def)
next
  case (2 sha256 dir nm f t)
  show ?case
  proof (cases f)
    case None
    then show ?thesis by (simp add: outcome_def hash_file_content_def MerkleNode_def)
  next
    case (Some stream)
    have n: "set_chunkHashes (chunkHashes (file_node sha256 (CHUNK_SIZE t) nm stream))
        (set_fileSize (fileSize (file_node sha256 (CHUNK_SIZE t) nm stream))
          (set_contentHash (contentHash (file_node sha256 (CHUNK_SIZE t) nm stream))
            (MerkleNode nm True)))
      = file_node sha256 (CHUNK_SIZE t) nm stream"
      by (simp add: file_node_def MerkleNode_def split: option.splits)
    show ?thesis using 2 Some
      by (simp add: outcome_def hash_file_content_valid[where nm = nm] n register_all_def
          in_directory_def Let_def)
  qed
next
  case (3 sha256 dir nm t)
  then show ?case by (simp add: outcome_def Let_def)
next
  case (4 sha256 dir nm entries throws t)
  then show ?case by (simp add: outcome_def Let_def)
next
  case (5 sha256 dir node t)
  then show ?case by simp
next
  case (6 sha256 dir entry rest node t)
  then show ?case
    by (cases "node_of sha256 (CHUNK_SIZE t) entry") (simp_all add: outcome_def add_built_def)
qed

text \<open>The build of the example directory, on a new tree object.\<close>

lemma example_build:
  "build_tree example_digest example_dir MerkleTree = Some (Inr (Some example_root), example_tree)"
  by (simp add: build_tree_def example_dir_def MerkleTree_def DEFAULT_CHUNK_SIZE_def
      MerkleNode_def addChild_def hash_file_content_def ordinary_file_def read_chunks_eq
      chunks.simps example_digest_def example_root_def example_tree_def calculateHash.simps
      hash_child_def Let_def)


lemma unseekable_build:
  "build_tree example_digest unseekable_dir MerkleTree
     = Some (Inr (Some unseekable_root), unseekable_tree)"
  by (simp add: build_tree_def unseekable_dir_def MerkleTree_def DEFAULT_CHUNK_SIZE_def
      MerkleNode_def addChild_def hash_file_content_def example_digest_def unseekable_root_def
      unseekable_tree_def calculateHash.simps hash_child_def Let_def)

lemma example_wf: "wf_node example_root"
  by (simp add: example_root_def valid_map_def)

lemma map_of_map_assign: "map_of (map_assign k v m) = (map_of m)(k \<mapsto> v)"
  by (induction m) (auto simp: fun_eq_iff)

lemma fst_map_assign: "fst ` set (map_assign k v m) = insert k (fst ` set m)"
proof -
  have "fst ` set (map_assign k v m) = dom (map_of (map_assign k v m))"
    by (simp add: dom_map_of_conv_image_fst)
  also have "\<dots> = insert k (dom (map_of m))" by (simp add: map_of_map_assign)
  finally show ?thesis by (simp add: dom_map_of_conv_image_fst)
qed

lemma valid_map_map_assign: "valid_map m \<Longrightarrow> valid_map (map_assign k v m)"
proof (induction m)
  case Nil
  then show ?case by (simp add: valid_map_def)
next
  case (Cons a m)
  obtain k' v' where a: "a = (k', v')" by (cases a)
  have tl: "valid_map m" using Cons.prems by (simp add: valid_map_def)
  have lt: "\<forall>x \<in> fst ` set m. k' < x" using Cons.prems a by (auto simp: valid_map_def)
  show ?case
  proof (cases "k < k'")
    case True
    then show ?thesis using Cons.prems a lt by (auto simp: valid_map_def)
  next
    case False
    show ?thesis
    proof (cases "k = k'")
      case True
      then show ?thesis using Cons.prems a by (auto simp: valid_map_def)
    next
      case ne: False
      with False have "k' < k" by simp
      moreover have "valid_map (map_assign k v m)" using Cons.IH tl by simp
      ultimately show ?thesis
        using a False ne lt fst_map_assign[of k v m]
        by (auto simp: valid_map_def)
    qed
  qed
qed

lemma set_map_assign_valid:
  "valid_map m \<Longrightarrow> set (map_assign k v m) = insert (k, v) {x \<in> set m. fst x \<noteq> k}"
proof (induction m)
  case Nil
  then show ?case by simp
next
  case (Cons a m)
  obtain k' v' where a: "a = (k', v')" by (cases a)
  have tl: "valid_map m" using Cons.prems by (simp add: valid_map_def)
  have lt: "\<forall>x \<in> set m. k' < fst x" using Cons.prems a by (auto simp: valid_map_def)
  show ?case using Cons.IH[OF tl] a lt by (auto split: if_splits)
qed

lemma addChild_dir:
  "\<not> isFile this \<Longrightarrow>
   snd (addChild (Some c) this)
     = set_cachedDepth (- 1) (set_children (map_assign (name c) c (children this)) this)"
  by (simp add: addChild_def)

lemma addChild_file: "isFile this \<Longrightarrow> snd (addChild child this) = this"
  by (simp add: addChild_def)

lemma wf_addChild:
  assumes "wf_node this" "wf_node c"
  shows "wf_node (snd (addChild (Some c) this))"
proof (cases "isFile this")
  case True
  then show ?thesis using assms by (simp add: addChild_file)
next
  case False
  obtain nm h ch chs cs isf sz cd where t: "this = Node nm h ch chs cs isf sz cd" by (cases this)
  have v: "valid_map cs" using assms t by simp
  have "valid_map (map_assign (name c) c cs)" using v by (rule valid_map_map_assign)
  moreover have "\<forall>(k, x) \<in> set (map_assign (name c) c cs). k = name x \<and> wf_node x"
    using set_map_assign_valid[OF v, of "name c" c] assms t by auto
  ultimately show ?thesis using False t by (simp add: addChild_dir)
qed

lemma addChild_fields:
  "name (snd (addChild child this)) = name this"
  "isFile (snd (addChild child this)) = isFile this"
  by (cases this; cases child; simp add: addChild_def)+

lemma fold_add_built_inv:
  assumes "\<And>e n. e \<in> set es \<Longrightarrow> f e = Some n \<Longrightarrow> wf_node n"
    and "wf_node this"
  shows "wf_node (fold (\<lambda>e. add_built (f e)) es this)
         \<and> name (fold (\<lambda>e. add_built (f e)) es this) = name this
         \<and> isFile (fold (\<lambda>e. add_built (f e)) es this) = isFile this"
  using assms
proof (induction es arbitrary: this)
  case Nil
  then show ?case by simp
next
  case (Cons e es)
  have w: "wf_node (add_built (f e) this)"
    using Cons.prems by (cases "f e") (auto simp: add_built_def intro: wf_addChild)
  have n: "name (add_built (f e) this) = name this" "isFile (add_built (f e) this) = isFile this"
    by (cases "f e"; simp add: add_built_def addChild_fields)+
  have "wf_node (fold (\<lambda>e. add_built (f e)) es (add_built (f e) this))
         \<and> name (fold (\<lambda>e. add_built (f e)) es (add_built (f e) this)) = name (add_built (f e) this)
         \<and> isFile (fold (\<lambda>e. add_built (f e)) es (add_built (f e) this))
             = isFile (add_built (f e) this)"
    by (rule Cons.IH) (use Cons.prems(1) w in auto)
  then show ?case using n by simp
qed

lemma wf_node_of:
  "node_of sha256 c e = Some n \<Longrightarrow> wf_node n \<and> name n = filename e"
proof (induction sha256 c e arbitrary: n rule: node_of.induct)
  case (5 digest c nm entries throws)
  then have nt: "\<not> throws"
    and n: "n = fold (\<lambda>e. add_built (node_of digest c e)) entries (MerkleNode nm False)"
    by (auto split: if_splits)
  have "wf_node (MerkleNode nm False)" by (simp add: MerkleNode_def valid_map_def)
  from fold_add_built_inv[of entries "node_of digest c", OF _ this] 5(1)[OF nt]
  show ?case unfolding n by (auto simp: MerkleNode_def)
qed (auto simp: MerkleNode_def file_node_def valid_map_def split: option.splits)

lemma build_tree_dir:
  assumes "0 < CHUNK_SIZE t"
  shows "build_tree sha256 (Directory nm entries throws) t =
     Some (if throws
           then (Inl ErrorReadingDirectory,
                 t\<lparr>file_objects :=
                     register_all (registered sha256 (CHUNK_SIZE t) (Directory nm entries throws)) [],
                   nodes := created (Directory nm entries throws)\<rparr>)
           else (Inr (Some (snd (calculateHash sha256
                        (the (node_of sha256 (CHUNK_SIZE t) (Directory nm entries throws)))))),
                 t\<lparr>root := Some (snd (calculateHash sha256
                        (the (node_of sha256 (CHUNK_SIZE t) (Directory nm entries throws))))),
                   file_objects :=
                     register_all (registered sha256 (CHUNK_SIZE t) (Directory nm entries throws)) [],
                   nodes := created (Directory nm entries throws)\<rparr>))"
  using assms
  by (simp add: build_tree_def build_node_eq outcome_def Let_def del: build_node.simps)

lemma build_node_wf:
  "build_node sha256 dir e t = Some (Inr n, t') \<Longrightarrow> wf_node n \<and> name n = filename e"
  and build_entries_wf:
  "build_entries sha256 dir es node t = Some (node', t') \<Longrightarrow> wf_node node \<Longrightarrow>
   wf_node node' \<and> name node' = name node"
proof (induction sha256 dir e t and sha256 dir es node t arbitrary: n t' and node' t'
    rule: build_node_build_entries.induct)
  case (1 sha256 dir nm t)
  then show ?case by simp
next
  case (2 sha256 dir nm f t)
  then show ?case
    by (auto simp: Let_def MerkleNode_def valid_map_def split: option.splits sum.splits)
next
  case (3 sha256 dir nm t)
  then show ?case by (auto simp: Let_def MerkleNode_def valid_map_def)
next
  case (4 sha256 dir nm entries throws t)
  have w: "wf_node (MerkleNode nm False)" by (simp add: MerkleNode_def valid_map_def)
  from 4(2) obtain t2 where
    b: "build_entries sha256 (dir @ [nm]) entries (MerkleNode nm False)
          (t\<lparr>nodes := nodes t @ [MerkleNode nm False]\<rparr>)
        = Some (n, t2)"
    by (auto simp: Let_def split: option.splits if_splits)
  from 4(1)[OF refl refl b w] show ?case by (simp add: MerkleNode_def)
next
  case (5 sha256 dir node t)
  then show ?case by simp
next
  case (6 sha256 dir entry rest node t)
  show ?case
  proof (cases "build_node sha256 dir entry t")
    case None
    then show ?thesis using 6(4) by simp
  next
    case (Some r)
    obtain res t1 where r: "r = (res, t1)" by (cases r)
    show ?thesis
    proof (cases res)
      case (Inl err)
      then show ?thesis using 6(2)[OF Some r[symmetric] Inl _ 6(5)] 6(4) Some r by simp
    next
      case (Inr childNode)
      have wc: "wf_node childNode" using 6(1)[of childNode t1] Some r Inr by simp
      have w': "wf_node (snd (addChild (Some childNode) node))"
        using wf_addChild[OF 6(5) wc] .
      have "build_entries sha256 dir rest (snd (addChild (Some childNode) node)) t1 = Some (node', t')"
        using 6(4) Some r Inr by simp
      from 6(3)[OF Some r[symmetric] Inr this w'] show ?thesis by (simp add: addChild_fields)
    qed
  qed
qed

lemma build_tree_root:
  assumes "build_tree sha256 p t = Some (Inr r, t')"
  shows "\<exists>n t2. wf_node n \<and> r = Some (snd (calculateHash sha256 n))
           \<and> t' = t2\<lparr>root := Some (snd (calculateHash sha256 n))\<rparr>"
proof -
  from assms obtain n t2 where
    b: "build_node sha256 [] p (t\<lparr>file_objects := [], nodes := []\<rparr>) = Some (Inr n, t2)"
    and r: "r = Some (snd (calculateHash sha256 n))"
       "t' = t2\<lparr>root := Some (snd (calculateHash sha256 n))\<rparr>"
    by (auto simp: build_tree_def Let_def split: if_splits option.splits sum.splits)
  from build_node_wf[OF b] r show ?thesis by blast
qed

text \<open>The root that a successful build leaves is well formed.\<close>

lemma built_root_wf:
  assumes "build_tree sha256 p t = Some (Inr r, t')"
  shows "\<exists>n. r = Some n \<and> root t' = Some n \<and> wf_node n"
proof -
  from build_tree_root[OF assms] obtain n t2 where
    "wf_node n" "r = Some (snd (calculateHash sha256 n))"
    "t' = t2\<lparr>root := Some (snd (calculateHash sha256 n))\<rparr>"
    by blast
  then show ?thesis by (simp add: wf_calculateHash)
qed

section \<open>Read-only traversals\<close>

text \<open>
  C7. On the tree object that a successful build leaves, \<^verbatim>\<open>verifyTreeIntegrity\<close> returns
  true and leaves the tree object as it is: every hash that it writes is the hash that
  was stored, so every field of every node is as before. \<^verbatim>\<open>getTreeStats\<close> and
  \<^verbatim>\<open>exportToJson\<close> are \<^verbatim>\<open>const\<close> and assign no field of any node: \<open>getTreeStats\<close> and
  \<open>exportToJson\<close> here read the tree object and return their result only.
\<close>

theorem verify_leaves_built_tree:
  assumes "build_tree sha256 p t = Some (Inr r, t')"
  shows "verifyTreeIntegrity sha256 t' = (True, t')"
proof -
  from build_tree_root[OF assms] obtain n t2 where
    w: "wf_node n" and t': "t' = t2\<lparr>root := Some (snd (calculateHash sha256 n))\<rparr>"
    by blast
  let ?r = "snd (calculateHash sha256 n)"
  have "verifyNodeIntegrity sha256 ?r = (True, ?r)"
    using verify_consistent[OF wf_calculateHash[OF w] hash_consistent_calculateHash[OF w]] .
  then show ?thesis unfolding t' by (simp add: verifyTreeIntegrity_def)
qed

theorem verify_leaves_built_tree_witness:
  "build_tree example_digest example_dir MerkleTree = Some (Inr (Some example_root), example_tree)
   \<and> verifyTreeIntegrity example_digest example_tree = (True, example_tree)
   \<and> root example_tree = Some example_root"
  using verify_leaves_built_tree[OF example_build] example_build
  by (simp add: example_tree_def)

section \<open>Statistics\<close>

lemma preorder_wf:
  "wf_node n \<Longrightarrow> preorder n = n # concat (map preorder (map snd (children n)))"
  by (subst preorder.simps) (simp add: sort_key_children(1))

lemma counts_append [simp]:
  "count_files (xs @ ys) = count_files xs + count_files ys"
  "count_directories (xs @ ys) = count_directories xs + count_directories ys"
  "total_size (xs @ ys) = total_size xs + total_size ys"
  by (simp_all add: count_files_def count_directories_def total_size_def)

lemma counts_Nil [simp]:
  "count_files [] = 0" "count_directories [] = 0" "total_size [] = 0"
  by (simp_all add: count_files_def count_directories_def total_size_def)

lemma calculateStatsRecursive_counts:
  "wf_node n \<Longrightarrow>
   calculateStatsRecursive n (files, directories, totalSize)
     = (files + of_nat (count_files (preorder n)),
        directories + of_nat (count_directories (preorder n)),
        totalSize + of_nat (total_size (preorder n)))"
proof (induction n arbitrary: files directories totalSize rule: node_induct)
  case (node n)
  obtain nm h ch chs cs isf sz cd where n: "n = Node nm h ch chs cs isf sz cd" by (cases n)
  have p: "preorder n = n # concat (map preorder (map snd cs))"
    using preorder_wf[OF node.prems] n by simp
  show ?case
  proof (cases isf)
    case True
    then have "cs = []" using node.prems n by simp
    then show ?thesis unfolding p using True n
      by (simp add: count_files_def count_directories_def total_size_def)
  next
    case False
    have ih: "\<And>k c f d s. (k, c) \<in> set cs \<Longrightarrow>
        calculateStatsRecursive c (f, d, s)
          = (f + of_nat (count_files (preorder c)), d + of_nat (count_directories (preorder c)),
             s + of_nat (total_size (preorder c)))"
      using node.IH wf_node_children[OF node.prems] n by simp
    have loop: "set xs \<subseteq> set cs \<Longrightarrow>
        fold (\<lambda>child. calculateStatsRecursive (snd child)) xs (f, d, s)
          = (f + of_nat (count_files (concat (map preorder (map snd xs)))),
             d + of_nat (count_directories (concat (map preorder (map snd xs)))),
             s + of_nat (total_size (concat (map preorder (map snd xs)))))" for xs f d s
    proof (induction xs arbitrary: f d s)
      case Nil
      then show ?case by simp
    next
      case (Cons x xs)
      obtain k c where x: "x = (k, c)" by (cases x)
      with Cons.prems have "(k, c) \<in> set cs" by simp
      from ih[OF this] Cons.IH Cons.prems x show ?case by (simp add: add.assoc)
    qed
    show ?thesis
      unfolding p using False n loop[of cs files "directories + 1" totalSize]
      by (simp add: count_files_def count_directories_def total_size_def)
  qed
qed

text \<open>
  The tree object built from the directory \<open>unseekable_dir\<close>: each of its two file nodes
  has the size \<open>2 ^ 64 - 1\<close>. The sum of the sizes of the file nodes is \<open>2 ^ 65 - 2\<close>, and
  \<^verbatim>\<open>getTreeStats\<close> returns the total size \<open>2 ^ 64 - 2\<close>.
\<close>

lemma unat_minus_1_64: "unat (- 1 :: 64 word) = 18446744073709551615"
  by (simp add: unsigned_minus_1_eq_mask mask_eq_exp_minus_1)

theorem getTreeStats_size_wraps:
  "build_tree example_digest unseekable_dir MerkleTree
     = Some (Inr (Some unseekable_root), unseekable_tree)
   \<and> root unseekable_tree = Some unseekable_root
   \<and> map (\<lambda>n. unat (fileSize n)) (filter isFile (preorder unseekable_root))
       = [18446744073709551615, 18446744073709551615]
   \<and> total_size (preorder unseekable_root) = 36893488147419103230
   \<and> getTreeStats unseekable_tree = (2, 1, 18446744073709551614)"
  using unseekable_build
  by (simp add: unseekable_tree_def unseekable_root_def getTreeStats_def preorder.simps
      total_size_def unat_minus_1_64)

text \<open>
  C9, as amended. Without a root, \<^verbatim>\<open>getTreeStats\<close> returns \<open>(0, 0, 0)\<close>. With a
  well-formed root, as every built tree has (\<open>built_root_wf\<close>), it returns the number of
  file nodes of the tree, the number of its other nodes (the directories, with or
  without children), and the sum of the sizes of the file nodes, each of the three
  modulo \<open>2 ^ 64\<close>; so the sum itself when that is below \<open>2 ^ 64\<close>.
\<close>

theorem getTreeStats_counts:
  "(root t = None \<longrightarrow> getTreeStats t = (0, 0, 0))
   \<and> (\<forall>r. root t = Some r \<and> wf_node r \<longrightarrow>
        getTreeStats t
          = (of_nat (count_files (preorder r)), of_nat (count_directories (preorder r)),
             of_nat (total_size (preorder r)))
        \<and> unat (fst (getTreeStats t)) = count_files (preorder r) mod 2 ^ 64
        \<and> unat (fst (snd (getTreeStats t))) = count_directories (preorder r) mod 2 ^ 64
        \<and> unat (snd (snd (getTreeStats t))) = total_size (preorder r) mod 2 ^ 64
        \<and> (total_size (preorder r) < 2 ^ 64 \<longrightarrow>
             unat (snd (snd (getTreeStats t))) = total_size (preorder r)))"
  by (auto simp: getTreeStats_def calculateStatsRecursive_counts unat_of_nat)

theorem getTreeStats_counts_witness:
  "getTreeStats MerkleTree = (0, 0, 0) \<and> wf_node example_root
   \<and> getTreeStats example_tree = (2, 3, 10)
   \<and> count_files (preorder example_root) = 2
   \<and> count_directories (preorder example_root) = 3
   \<and> total_size (preorder example_root) = 10"
proof -
  have n: "root MerkleTree = None" by (simp add: MerkleTree_def)
  have r: "root example_tree = Some example_root \<and> wf_node example_root"
    using example_wf by (simp add: example_tree_def)
  have c: "count_files (preorder example_root) = 2"
    "count_directories (preorder example_root) = 3"
    "total_size (preorder example_root) = 10"
    by (simp_all add: example_root_def preorder.simps count_files_def count_directories_def
        total_size_def)
  from getTreeStats_counts[of MerkleTree] n
  have 1: "getTreeStats MerkleTree = (0, 0, 0)" by blast
  from getTreeStats_counts[of example_tree] r
  have "getTreeStats example_tree
          = (of_nat (count_files (preorder example_root)),
             of_nat (count_directories (preorder example_root)),
             of_nat (total_size (preorder example_root)))"
    by blast
  then have 2: "getTreeStats example_tree = (2, 3, 10)" unfolding c by simp
  show ?thesis using 1 2 c r by simp
qed

section \<open>Lookup by name\<close>

lemma find_append':
  "find P (xs @ ys) = (case find P xs of Some x \<Rightarrow> Some x | None \<Rightarrow> find P ys)"
  by (induction xs) auto

lemma findNodeRecursive_preorder:
  "wf_node n \<Longrightarrow> findNodeRecursive n query = find (\<lambda>x. name x = query) (preorder n)"
proof (induction n rule: node_induct)
  case (node n)
  obtain nm h ch chs cs isf sz cd where n: "n = Node nm h ch chs cs isf sz cd" by (cases n)
  have ih: "\<And>k c. (k, c) \<in> set cs \<Longrightarrow>
      findNodeRecursive c query = find (\<lambda>x. name x = query) (preorder c)"
    using node.IH wf_node_children[OF node.prems] n by simp
  have loop: "set xs \<subseteq> set cs \<Longrightarrow>
      find_in_children xs query
        = find (\<lambda>x. name x = query) (concat (map preorder (map snd xs)))" for xs
  proof (induction xs)
    case Nil
    then show ?case by simp
  next
    case (Cons x xs)
    obtain k c where x: "x = (k, c)" by (cases x)
    with Cons.prems have "(k, c) \<in> set cs" by simp
    from ih[OF this] Cons.IH Cons.prems x show ?case
      by (simp add: find_append' split: option.splits)
  qed
  have p: "preorder n = n # concat (map preorder (map snd cs))"
    using preorder_wf[OF node.prems] n by simp
  show ?case unfolding p using n loop[of cs] by simp
qed

text \<open>
  C10. Without a root, \<^verbatim>\<open>findNode\<close> returns null for every name. With a well-formed
  root, as every built tree has (\<open>built_root_wf\<close>), it returns the first node with that name in the order in which every node comes before
  its children and the children of a node come in the order of their names, and null
  when there is none.
\<close>

theorem findNode_preorder:
  "(root t = None \<longrightarrow> findNode query t = None)
   \<and> (\<forall>r. root t = Some r \<and> wf_node r \<longrightarrow>
        findNode query t = find (\<lambda>n. name n = query) (preorder r))"
  by (auto simp: findNode_def findNodeRecursive_preorder)

theorem findNode_preorder_witness:
  "findNode ''y'' MerkleTree = None \<and> wf_node example_root
   \<and> findNode ''y'' example_tree
       = Some (Node ''y'' ''sha(hello)'' ''sha(hello)'' [''sha(hello)''] [] True 5 (- 1))
   \<and> findNode ''z'' example_tree = None"
  using findNode_preorder[of MerkleTree "''y''"] findNode_preorder[of example_tree "''y''"]
    findNode_preorder[of example_tree "''z''"] example_wf
  by (simp add: MerkleTree_def example_tree_def example_root_def preorder.simps)

section \<open>The content index\<close>







lemma build_tree_index:
  assumes "0 < CHUNK_SIZE t" and "build_tree sha256 p t = Some (res, t')" and "is_directory p"
  shows "file_objects t' = register_all (registered sha256 (CHUNK_SIZE t) p) []"
    and "nodes t' = created p" and "CHUNK_SIZE t' = CHUNK_SIZE t"
proof -
  obtain nm entries throws where p: "p = Directory nm entries throws"
    using assms(3) by (cases p) auto
  from assms(2) show "file_objects t' = register_all (registered sha256 (CHUNK_SIZE t) p) []"
    and "nodes t' = created p" and "CHUNK_SIZE t' = CHUNK_SIZE t"
    unfolding p build_tree_dir[OF assms(1)] by (auto split: if_splits)
qed

subsection \<open>Where the nodes of the index are in the tree\<close>















section \<open>A build that fails\<close>

text \<open>
  The tree object \<open>example_tree\<close> holds a built tree. A build on a directory that cannot
  be opened fails with the error of reading the directory, and leaves the new node of
  that directory in the registry and the previous root in \<open>root\<close>: the assignment to
  \<open>root\<close> is not reached, and the node is appended before the directory is read.
\<close>

theorem failed_rebuild_not_cleared:
  "build_tree example_digest closed_dir example_tree
     = Some (Inl ErrorReadingDirectory,
             \<lparr>root = Some example_root, file_objects = [],
              nodes = [Node ''d'' [] [] [] [] False 0 (- 1)], CHUNK_SIZE = 1048576\<rparr>)
   \<and> root \<lparr>root = Some example_root, file_objects = [],
            nodes = [Node ''d'' [] [] [] [] False 0 (- 1)], CHUNK_SIZE = 1048576\<rparr> \<noteq> None
   \<and> nodes \<lparr>root = Some example_root, file_objects = [],
             nodes = [Node ''d'' [] [] [] [] False 0 (- 1)], CHUNK_SIZE = 1048576\<rparr> \<noteq> []"
  by (simp add: build_tree_def closed_dir_def example_tree_def MerkleNode_def Let_def)

text \<open>
  C6, as amended. A build call on a path that does not exist, or that is not a directory,
  fails and leaves the tree object as it was. A build call on a directory returns, and
  whether it fails or not the content index and the registry that it leaves are those of
  this build alone: the index holds the registrations of this build and the registry the
  nodes created by it, the node of the directory itself among them; nothing of the
  previous index and registry is left or restored. The chunk size is kept.
\<close>

theorem build_tree_failure_state:
  assumes "0 < CHUNK_SIZE t"
  shows "(\<not> exists_fs p \<longrightarrow> build_tree sha256 p t = Some (Inl DirectoryDoesNotExist, t))
         \<and> (exists_fs p \<and> \<not> is_directory p \<longrightarrow>
              build_tree sha256 p t = Some (Inl PathIsNotADirectory, t))
         \<and> (is_directory p \<longrightarrow>
              (\<exists>res t'. build_tree sha256 p t = Some (res, t')
                 \<and> file_objects t' = register_all (registered sha256 (CHUNK_SIZE t) p) []
                 \<and> nodes t' = created p
                 \<and> nodes t' \<noteq> []
                 \<and> CHUNK_SIZE t' = CHUNK_SIZE t))"
proof (intro conjI impI)
  assume "\<not> exists_fs p"
  then show "build_tree sha256 p t = Some (Inl DirectoryDoesNotExist, t)"
    by (simp add: build_tree_def)
next
  assume "exists_fs p \<and> \<not> is_directory p"
  then show "build_tree sha256 p t = Some (Inl PathIsNotADirectory, t)"
    by (simp add: build_tree_def)
next
  assume d: "is_directory p"
  then obtain nm entries throws where p: "p = Directory nm entries throws" by (cases p) auto
  obtain res t' where b: "build_tree sha256 p t = Some (res, t')"
    unfolding p build_tree_dir[OF assms] by (cases throws) auto
  from build_tree_index[OF assms b d] b p
  show "\<exists>res t'. build_tree sha256 p t = Some (res, t')
          \<and> file_objects t' = register_all (registered sha256 (CHUNK_SIZE t) p) []
          \<and> nodes t' = created p \<and> nodes t' \<noteq> [] \<and> CHUNK_SIZE t' = CHUNK_SIZE t"
    by auto
qed

theorem build_tree_failure_state_witness:
  "0 < CHUNK_SIZE example_tree
   \<and> build_tree example_digest (Missing ''x'') example_tree
       = Some (Inl DirectoryDoesNotExist, example_tree)
   \<and> build_tree example_digest (RegularFile ''f'' (Some (ordinary_file ''hello''))) example_tree
       = Some (Inl PathIsNotADirectory, example_tree)
   \<and> is_directory broken_dir
   \<and> map_option fst (build_tree example_digest broken_dir example_tree)
       = Some (Inl ErrorReadingDirectory)
   \<and> map_option (file_objects \<circ> snd) (build_tree example_digest broken_dir example_tree)
       = Some [(''sha(hello)'',
                [''d'', ''f''], Node ''f'' [] ''sha(hello)'' [''sha(hello)''] [] True 5 (- 1))]
   \<and> map_option (nodes \<circ> snd) (build_tree example_digest broken_dir example_tree)
       = Some [Node ''d'' [] [] [] [] False 0 (- 1), Node ''f'' [] [] [] [] True 0 (- 1)]"
proof -
  have c: "0 < CHUNK_SIZE example_tree" by (simp add: example_tree_def)
  have d: "is_directory broken_dir" by (simp add: broken_dir_def)
  have e: "\<not> exists_fs (Missing ''x'')"
    "exists_fs (RegularFile ''f'' (Some (ordinary_file ''hello''))) \<and> \<not> is_directory (RegularFile ''f'' (Some (ordinary_file ''hello'')))"
    by simp_all
  have r: "register_all (registered example_digest (CHUNK_SIZE example_tree) broken_dir) []
       = [(''sha(hello)'',
           [''d'', ''f''], Node ''f'' [] ''sha(hello)'' [''sha(hello)''] [] True 5 (- 1))]"
    "created broken_dir = [Node ''d'' [] [] [] [] False 0 (- 1), Node ''f'' [] [] [] [] True 0 (- 1)]"
    by (simp_all add: broken_dir_def example_tree_def chunks.simps example_digest_def
        register_all_def MerkleNode_def file_node_def ordinary_file_def in_directory_def)
  have b: "map_option fst (build_tree example_digest broken_dir example_tree)
       = Some (Inl ErrorReadingDirectory)"
    by (simp add: broken_dir_def build_tree_dir[OF c])
  from build_tree_failure_state[OF c, of "Missing ''x''" example_digest] e(1)
  have 1: "build_tree example_digest (Missing ''x'') example_tree
       = Some (Inl DirectoryDoesNotExist, example_tree)" by blast
  from build_tree_failure_state[OF c, of "RegularFile ''f'' (Some (ordinary_file ''hello''))" example_digest] e(2)
  have 2: "build_tree example_digest (RegularFile ''f'' (Some (ordinary_file ''hello''))) example_tree
       = Some (Inl PathIsNotADirectory, example_tree)" by blast
  from build_tree_failure_state[OF c, of broken_dir example_digest] d
  obtain res t' where 3: "build_tree example_digest broken_dir example_tree = Some (res, t')"
    "file_objects t' = register_all (registered example_digest (CHUNK_SIZE example_tree) broken_dir) []"
    "nodes t' = created broken_dir"
    by blast
  show ?thesis using c d 1 2 3 b r by simp
qed

section \<open>Determinism of the root hash\<close>

lemma map_assign_commute:
  "k \<noteq> k' \<Longrightarrow>
   map_assign k v (map_assign k' v' m) = map_assign k' v' (map_assign k v m)"
  by (induction m) (auto simp: not_less_iff_gr_or_eq)

lemma addChild_commute:
  assumes "name a \<noteq> name b"
  shows "snd (addChild (Some a) (snd (addChild (Some b) n)))
       = snd (addChild (Some b) (snd (addChild (Some a) n)))"
  using assms by (cases n) (simp add: addChild_def map_assign_commute)

lemma add_built_commute:
  assumes "\<And>a b. x = Some a \<Longrightarrow> y = Some b \<Longrightarrow> a = b \<or> name a \<noteq> name b"
  shows "add_built x \<circ> add_built y = add_built y \<circ> add_built x"
proof (cases x)
  case None
  then show ?thesis by (simp add: add_built_def fun_eq_iff)
next
  case xa: (Some a)
  show ?thesis
  proof (cases y)
    case None
    then show ?thesis by (simp add: add_built_def fun_eq_iff)
  next
    case (Some b)
    from assms[OF xa Some] show ?thesis
      using xa Some by (auto simp: add_built_def fun_eq_iff addChild_commute)
  qed
qed

lemma reordered_filename: "reordered e e' \<Longrightarrow> filename e = filename e'"
  by (induction rule: reordered.induct) auto

lemma node_of_name: "node_of sha256 c e = Some n \<Longrightarrow> name n = filename e"
  using wf_node_of by blast

lemma fold_add_built_permuted:
  assumes d: "distinct (map filename es)" and m: "mset es' = mset es"
  shows "fold (\<lambda>e. add_built (node_of sha256 c e)) es' this
       = fold (\<lambda>e. add_built (node_of sha256 c e)) es this"
proof -
  have "fold (\<lambda>e. add_built (node_of sha256 c e)) es
      = fold (\<lambda>e. add_built (node_of sha256 c e)) es'"
  proof (rule fold_multiset_equiv)
    show "mset es = mset es'" using m by simp
  next
    fix x y assume xy: "x \<in> set es" "y \<in> set es"
    show "add_built (node_of sha256 c x) \<circ> add_built (node_of sha256 c y)
        = add_built (node_of sha256 c y) \<circ> add_built (node_of sha256 c x)"
    proof (rule add_built_commute)
      fix a b assume ab: "node_of sha256 c x = Some a" "node_of sha256 c y = Some b"
      show "a = b \<or> name a \<noteq> name b"
      proof (cases "x = y")
        case True
        with ab show ?thesis by simp
      next
        case False
        with d xy have "filename x \<noteq> filename y"
          by (meson distinct_map inj_onD)
        then show ?thesis using node_of_name[OF ab(1)] node_of_name[OF ab(2)] by simp
      qed
    qed
  qed
  then show ?thesis by simp
qed

lemma node_of_reordered:
  "reordered e e' \<Longrightarrow> sibling_names_distinct e \<Longrightarrow>
   node_of sha256 c e' = node_of sha256 c e \<and> sibling_names_distinct e'"
proof (induction rule: reordered.induct)
  case (same e)
  then show ?case by simp
next
  case (entries es es'' es' nm throws)
  have d: "distinct (map filename es)" and sd: "\<forall>e \<in> set es. sibling_names_distinct e"
    using entries.prems by simp_all
  have pw: "list_all2 (\<lambda>a b. filename b = filename a \<and> node_of sha256 c b = node_of sha256 c a
              \<and> sibling_names_distinct b) es es''"
    unfolding list_all2_conv_all_nth
  proof (intro conjI allI impI)
    show "length es = length es''" using entries.IH by (rule list_all2_lengthD)
  next
    fix i assume i: "i < length es"
    then have "reordered (es ! i) (es'' ! i)
        \<and> (sibling_names_distinct (es ! i) \<longrightarrow>
             node_of sha256 c (es'' ! i) = node_of sha256 c (es ! i)
             \<and> sibling_names_distinct (es'' ! i))"
      using entries.IH by (simp add: list_all2_conv_all_nth)
    moreover have "sibling_names_distinct (es ! i)" using sd i by simp
    ultimately show "filename (es'' ! i) = filename (es ! i)"
      "node_of sha256 c (es'' ! i) = node_of sha256 c (es ! i)"
      "sibling_names_distinct (es'' ! i)"
      using reordered_filename[of "es ! i" "es'' ! i"] by simp_all
  qed
  then have fn: "map filename es'' = map filename es"
    and no: "map (node_of sha256 c) es'' = map (node_of sha256 c) es"
    and sd'': "\<forall>e \<in> set es''. sibling_names_distinct e"
    by (auto simp: list_all2_conv_all_nth list_eq_iff_nth_eq in_set_conv_nth)
  have d'': "distinct (map filename es'')" using d fn by simp
  have "set es' = set es''" using entries.hyps by (rule mset_eq_setD)
  then have sd': "\<forall>e \<in> set es'. sibling_names_distinct e" using sd'' by simp
  have "mset (map filename es') = mset (map filename es'')" using entries.hyps by simp
  then have d': "distinct (map filename es')" using d'' by (metis mset_eq_imp_distinct_iff)
  have "fold (\<lambda>e. add_built (node_of sha256 c e)) es' (MerkleNode nm False)
      = fold (\<lambda>e. add_built (node_of sha256 c e)) es'' (MerkleNode nm False)"
    using fold_add_built_permuted[OF d'' entries.hyps] .
  also have "\<dots> = fold add_built (map (node_of sha256 c) es'') (MerkleNode nm False)"
    by (simp add: fold_map comp_def)
  also have "\<dots> = fold (\<lambda>e. add_built (node_of sha256 c e)) es (MerkleNode nm False)"
    unfolding no by (simp add: fold_map comp_def)
  finally show ?case using d' sd' by simp
qed

lemma reordered_directory:
  assumes "reordered (Directory nm es throws) p'"
  obtains es' where "p' = Directory nm es' throws"
  using assms by (cases rule: reordered.cases) auto

lemma without_chunks_fields:
  "name (without_chunks n) = name n" "isFile (without_chunks n) = isFile n"
  "contentHash (without_chunks n) = contentHash n"
  "children (without_chunks n) = map (\<lambda>(k, c). (k, without_chunks c)) (children n)"
  by (cases n; simp)+

lemma valid_map_map_values: "valid_map (map (\<lambda>(k, c). (k, f c)) cs) = valid_map cs"
  by (simp add: valid_map_def case_prod_unfold comp_def)

lemma calculateHash_without_chunks:
  "wf_node n \<Longrightarrow>
   fst (calculateHash sha256 (without_chunks n)) = fst (calculateHash sha256 n)"
proof (induction n rule: node_induct)
  case (node n)
  obtain nm h ch chs cs isf sz cd where n: "n = Node nm h ch chs cs isf sz cd" by (cases n)
  show ?case
  proof (cases "isf \<or> cs = []")
    case True
    then show ?thesis using node.prems n
      by (cases isf) (auto simp: calculateHash_file calculateHash_empty)
  next
    case False
    then have v: "valid_map cs" "\<not> isf" "cs \<noteq> []" using node.prems n by auto
    let ?cs' = "map (\<lambda>(k, c). (k, without_chunks c)) cs"
    have v': "valid_map ?cs'" "?cs' \<noteq> []" using v by (simp_all add: valid_map_map_values)
    have ih: "\<And>k c. (k, c) \<in> set cs \<Longrightarrow>
        fst (calculateHash sha256 (without_chunks c)) = fst (calculateHash sha256 c)"
      using node.IH wf_node_children[OF node.prems] n by simp
    have m: "map (\<lambda>(k, c). k @ '':'' @ fst (calculateHash sha256 c) @ '';'') ?cs'
        = map (\<lambda>(k, c). k @ '':'' @ fst (calculateHash sha256 c) @ '';'') cs"
      using ih by (auto simp: case_prod_unfold)
    show ?thesis
      unfolding n without_chunks.simps calculateHash_valid[OF v]
        calculateHash_valid[OF v'(1) v(2) v'(2)] fst_conv m
      by (rule refl)
  qed
qed

lemma map_values_map_assign:
  "map (\<lambda>(k, c). (k, f c)) (map_assign k v m) = map_assign k (f v) (map (\<lambda>(k, c). (k, f c)) m)"
  by (induction m) auto

lemma without_chunks_add_built:
  "without_chunks (add_built x n) = add_built (map_option without_chunks x) (without_chunks n)"
  by (cases n; cases x)
     (simp_all add: add_built_def addChild_def map_values_map_assign without_chunks_fields)

lemma without_chunks_fold:
  "without_chunks (fold (\<lambda>e. add_built (f e)) es n)
   = fold (\<lambda>e. add_built (map_option without_chunks (f e))) es (without_chunks n)"
  by (induction es arbitrary: n) (simp_all add: without_chunks_add_built)

lemma node_of_without_chunks:
  "map_option without_chunks (node_of sha256 c e) = map_option without_chunks (node_of sha256 c' e)"
proof (induction sha256 c e rule: node_of.induct)
  case (5 digest c nm entries throws)
  show ?case
  proof (cases throws)
    case True
    then show ?thesis by simp
  next
    case False
    have "fold (\<lambda>e. add_built (map_option without_chunks (node_of digest c e))) entries n
        = fold (\<lambda>e. add_built (map_option without_chunks (node_of digest c' e))) entries n" for n
      by (rule fold_cong) (use 5[OF False] in auto)
    then show ?thesis using False by (simp add: without_chunks_fold)
  qed
qed (simp_all add: file_node_def split: option.splits)

lemma addChild_order:
  assumes "distinct (map name cs)" and "mset cs' = mset cs"
  shows "fold (\<lambda>c n. snd (addChild (Some c) n)) cs' this
       = fold (\<lambda>c n. snd (addChild (Some c) n)) cs this"
proof -
  have "fold (\<lambda>c n. snd (addChild (Some c) n)) cs = fold (\<lambda>c n. snd (addChild (Some c) n)) cs'"
  proof (rule fold_multiset_equiv)
    show "mset cs = mset cs'" using assms(2) by simp
  next
    fix a b assume ab: "a \<in> set cs" "b \<in> set cs"
    show "(\<lambda>n. snd (addChild (Some a) n)) \<circ> (\<lambda>n. snd (addChild (Some b) n))
        = (\<lambda>n. snd (addChild (Some b) n)) \<circ> (\<lambda>n. snd (addChild (Some a) n))"
    proof (cases "a = b")
      case True
      then show ?thesis by simp
    next
      case False
      with assms(1) ab have "name a \<noteq> name b" by (meson distinct_map inj_onD)
      then show ?thesis by (simp add: fun_eq_iff addChild_commute)
    qed
  qed
  then show ?thesis by simp
qed

text \<open>
  C4. Let a build on a directory succeed, the names of the entries of every directory
  being distinct. Then a build of the same contents, with the entries of any directory
  yielded in any other order, on any tree object, succeeds as well, and the hash of its
  root is the same; with the same chunk size the two roots are the same in every field of
  every node, so every computed hash is. For the insertions themselves: adding children
  with distinct names to a node in any order leaves the same node.
\<close>

theorem root_hash_deterministic:
  assumes "reordered p p'" and "sibling_names_distinct p"
    and "0 < CHUNK_SIZE t" and "0 < CHUNK_SIZE t'"
    and "build_tree sha256 p t = Some (Inr r, t1)"
  shows "(\<exists>r' t1'. build_tree sha256 p' t' = Some (Inr r', t1')
            \<and> r' \<noteq> None \<and> map_option hash r' = map_option hash r
            \<and> (CHUNK_SIZE t' = CHUNK_SIZE t \<longrightarrow> r' = r))
         \<and> (\<forall>cs cs' this. distinct (map name cs) \<and> mset cs' = mset cs \<longrightarrow>
               fold (\<lambda>c n. snd (addChild (Some c) n)) cs' this
                 = fold (\<lambda>c n. snd (addChild (Some c) n)) cs this)"
proof (intro conjI allI impI)
  have dir: "is_directory p"
    using assms(5) by (auto simp: build_tree_def split: if_splits)
  then obtain nm es throws where p: "p = Directory nm es throws" by (cases p) auto
  have nt: "\<not> throws"
    using assms(5) unfolding p build_tree_dir[OF assms(3)] by (auto split: if_splits)
  obtain es' where p': "p' = Directory nm es' throws"
    using assms(1) unfolding p by (rule reordered_directory)
  let ?c = "CHUNK_SIZE t" and ?c' = "CHUNK_SIZE t'"
  obtain n where n: "node_of sha256 ?c p = Some n" using nt p by simp
  obtain n' where n': "node_of sha256 ?c' p = Some n'" using nt p by simp
  have same: "node_of sha256 ?c' p' = Some n'"
    using node_of_reordered[OF assms(1,2), of sha256 ?c'] n' by simp
  have r: "r = Some (snd (calculateHash sha256 n))"
    using assms(5) n nt unfolding p build_tree_dir[OF assms(3)] by simp
  let ?r' = "Some (snd (calculateHash sha256 n'))"
  have b': "build_tree sha256 p' t'
      = Some (Inr ?r',
              t'\<lparr>root := ?r',
                 file_objects := register_all (registered sha256 ?c' p') [],
                 nodes := created p'\<rparr>)"
    using same nt unfolding p' build_tree_dir[OF assms(4)] by simp
  have w: "wf_node n" "wf_node n'" using wf_node_of n n' by blast+
  have "without_chunks n' = without_chunks n"
    using node_of_without_chunks[of sha256 ?c' p ?c] n n' by simp
  then have "fst (calculateHash sha256 n') = fst (calculateHash sha256 n)"
    using calculateHash_without_chunks[OF w(1), of sha256]
      calculateHash_without_chunks[OF w(2), of sha256] by simp
  then have h: "map_option hash ?r' = map_option hash r"
    by (simp add: r calculateHash_fields)
  have "?r' = r" if "?c' = ?c" using that n n' r by simp
  with b' h show "\<exists>r' t1'. build_tree sha256 p' t' = Some (Inr r', t1')
            \<and> r' \<noteq> None \<and> map_option hash r' = map_option hash r
            \<and> (CHUNK_SIZE t' = CHUNK_SIZE t \<longrightarrow> r' = r)"
    by blast
next
  fix cs cs' :: "node list" and this
  assume "distinct (map name cs) \<and> mset cs' = mset cs"
  then show "fold (\<lambda>c n. snd (addChild (Some c) n)) cs' this
           = fold (\<lambda>c n. snd (addChild (Some c) n)) cs this"
    using addChild_order by blast
qed

theorem root_hash_deterministic_witness:
  "reordered example_dir example_dir_reordered \<and> sibling_names_distinct example_dir
   \<and> 0 < CHUNK_SIZE MerkleTree \<and> 0 < CHUNK_SIZE example_tree
   \<and> build_tree example_digest example_dir MerkleTree = Some (Inr (Some example_root), example_tree)
   \<and> map_option fst (build_tree example_digest example_dir_reordered example_tree)
       = Some (Inr (Some example_root))"
proof -
  have r: "reordered example_dir example_dir_reordered"
    unfolding example_dir_def example_dir_reordered_def
    by (rule reordered.entries[where es'' = "[RegularFile ''b.txt'' (Some (ordinary_file ''hello'')),
          Directory ''a'' [RegularFile ''y'' (Some (ordinary_file ''hello''))] False, Directory ''e'' [] False]"])
       (simp_all add: reordered.same)
  have s: "sibling_names_distinct example_dir" by (simp add: example_dir_def)
  have c: "0 < CHUNK_SIZE MerkleTree" "0 < CHUNK_SIZE example_tree"
    "CHUNK_SIZE example_tree = CHUNK_SIZE MerkleTree"
    by (simp_all add: MerkleTree_def DEFAULT_CHUNK_SIZE_def example_tree_def)
  from root_hash_deterministic[OF r s c(1,2) example_build] c(3)
  obtain t1' where
    "build_tree example_digest example_dir_reordered example_tree = Some (Inr (Some example_root), t1')"
    by blast
  then show ?thesis using r s c example_build by simp
qed

section \<open>Chunk-size bounds\<close>

text \<open>
  C5. \<open>setChunkSize n\<close> succeeds and stores \<open>n\<close> exactly when \<open>1024 \<le> n \<le> 104857600\<close>;
  otherwise it fails with the invalid-chunk-size error and leaves the tree object, its
  chunk size included, as it was. Any call changes at most the chunk size.
\<close>

theorem setChunkSize_bounds:
  "setChunkSize n t =
     (if 1024 \<le> n \<and> n \<le> 104857600 then (Inr (), t\<lparr>CHUNK_SIZE := n\<rparr>)
      else (Inl InvalidChunkSize, t))
   \<and> (fst (setChunkSize n t) = Inr () \<and> getChunkSize (snd (setChunkSize n t)) = n)
       = (1024 \<le> n \<and> n \<le> 104857600)
   \<and> (fst (setChunkSize n t) = Inl InvalidChunkSize \<and> snd (setChunkSize n t) = t)
       = (n < 1024 \<or> 104857600 < n)"
  by (auto simp: setChunkSize_def getChunkSize_def MIN_CHUNK_SIZE_def MAX_CHUNK_SIZE_def)

text \<open>The four boundary values of C5.\<close>

lemma setChunkSize_boundary_values:
  "setChunkSize 1023 t = (Inl InvalidChunkSize, t)"
  "setChunkSize 104857601 t = (Inl InvalidChunkSize, t)"
  "setChunkSize 1024 t = (Inr (), t\<lparr>CHUNK_SIZE := 1024\<rparr>)"
  "setChunkSize 104857600 t = (Inr (), t\<lparr>CHUNK_SIZE := 104857600\<rparr>)"
  by (simp_all add: setChunkSize_def MIN_CHUNK_SIZE_def MAX_CHUNK_SIZE_def)

end
